theory Spec2Isabelle
  imports Main "HOL-Library.Monad_Syntax"
begin

section \<open>Values, errors and runs that do not return\<close>

text \<open>
  The compiler of \<^verbatim>\<open>src/index.js\<close> has four stages: \<^verbatim>\<open>tokenizer\<close>, \<^verbatim>\<open>parser\<close>,
  \<^verbatim>\<open>transformer\<close> (built on \<^verbatim>\<open>traverser\<close>) and \<^verbatim>\<open>codeGenerator\<close>.

  A JavaScript string is a \<^typ>\<open>string\<close> here; a \<^typ>\<open>char\<close> stands for one UTF-16 code unit
  below 256. Reading \<^verbatim>\<open>input[i]\<close> or \<^verbatim>\<open>tokens[i]\<close> past the end gives \<^verbatim>\<open>undefined\<close>,
  which is \<^term>\<open>None\<close> in \<open>char_at\<close> and \<open>token_at\<close>.

  Four kinds of failure occur. Two are \<^verbatim>\<open>throw\<close> statements of the source:
  \<^verbatim>\<open>throw new SyntaxError(msg)\<close> in the tokenizer and \<^verbatim>\<open>throw new TypeError(node.type)\<close>
  in the traverser and the code generator. The other two are raised by the JavaScript
  engine itself. When the program reads a property of \<^verbatim>\<open>undefined\<close> or \<^verbatim>\<open>null\<close> the
  engine's error is a \<^verbatim>\<open>TypeError\<close> too; it is kept apart here as \<open>UndefinedAccess p\<close>,
  with \<open>p\<close> the property that was read. When a string or an array is made longer than
  the engine allows, the engine's error is a \<^verbatim>\<open>RangeError\<close>.

  The loops of the tokenizer and of the parser have no bound of their own, so they are
  partial functions into \<^typ>\<open>'a option\<close>: the value \<^term>\<open>None\<close> is a run that never
  returns.
\<close>

datatype error =
    SyntaxError string
  | TypeError string
  | UndefinedAccess string
  | RangeError string

fun thrown_by_program :: "error \<Rightarrow> bool" where
  "thrown_by_program (SyntaxError m) = True"
| "thrown_by_program (TypeError m) = True"
| "thrown_by_program (UndefinedAccess p) = False"
| "thrown_by_program (RangeError m) = False"

subsection \<open>The limits of the engine\<close>

text \<open>
  Past the end of the input the letter loop and the string loop of the tokenizer go on
  appending to \<^verbatim>\<open>value\<close>, and on a token that \<^verbatim>\<open>walk\<close> does not consume the loops of the
  parser go on pushing to an array. Nothing in the source ends such a run; what ends it
  is the engine. A string has a maximal length, and \<^verbatim>\<open>value += char\<close> beyond it raises
  \<^verbatim>\<open>RangeError: Invalid string length\<close>. An array has at most \<open>2\<^sup>3\<^sup>2 - 1\<close> elements
  (fewer where the engine gives up earlier), and \<^verbatim>\<open>push\<close> on a full array raises
  \<^verbatim>\<open>RangeError: Invalid array length\<close>.

  The two limits are not in the source, so they are a parameter of the tokenizer and of
  the parser: an \<open>engine\<close>, in which \<^term>\<open>None\<close> stands for no limit. \<open>append_string\<close> is
  \<^verbatim>\<open>v + w\<close> on strings and \<open>array_push\<close> is \<^verbatim>\<open>xs.push(x)\<close>, each with the engine's check.
  \<open>unbounded\<close> is the engine without limits, for which a string and an array are lists
  of any length; on it a run that the limits would end does not return.

  The limits are applied in the tokenizer and in the parser, whose loops they end. The
  traverser, the transformer and the code generator are recursions over a finite tree,
  and are written without them.
\<close>

record engine =
  max_string_length :: "nat option"
  max_array_length :: "nat option"

definition unbounded :: engine where
  "unbounded = \<lparr>max_string_length = None, max_array_length = None\<rparr>"

definition append_string :: "engine \<Rightarrow> string \<Rightarrow> string \<Rightarrow> error + string" where
  "append_string eng v w =
     (case max_string_length eng of
        None \<Rightarrow> Inr (v @ w)
      | Some n \<Rightarrow>
          if length (v @ w) \<le> n then Inr (v @ w)
          else Inl (RangeError ''Invalid string length''))"

definition array_push :: "engine \<Rightarrow> 'a list \<Rightarrow> 'a \<Rightarrow> error + 'a list" where
  "array_push eng xs x =
     (case max_array_length eng of
        None \<Rightarrow> Inr (xs @ [x])
      | Some n \<Rightarrow>
          if length xs < n then Inr (xs @ [x])
          else Inl (RangeError ''Invalid array length''))"

section \<open>Tokenizer\<close>

datatype token_type = Paren | Number | String | Name

record token =
  ttype :: token_type
  tvalue :: string

definition char_at :: "string \<Rightarrow> nat \<Rightarrow> char option" where
  "char_at input i = (if i < length input then Some (input ! i) else None)"

text \<open>
  String conversion, as \<^verbatim>\<open>value += char\<close> and \<^verbatim>\<open>RegExp.prototype.test\<close> apply it to
  their argument: \<^verbatim>\<open>undefined\<close> becomes the nine characters \<^verbatim>\<open>undefined\<close>.
\<close>

fun to_string :: "char option \<Rightarrow> string" where
  "to_string (Some c) = [c]"
| "to_string None = ''undefined''"

text \<open>
  The character classes of the three regular expressions \<^verbatim>\<open>/\s/i\<close>, \<^verbatim>\<open>/[0-9]/i\<close> and
  \<^verbatim>\<open>/[a-z]/i\<close>, on code units below 256: white space is TAB, LF, VT, FF, CR, SPACE and
  NBSP; without the \<^verbatim>\<open>u\<close> flag, \<^verbatim>\<open>/[a-z]/i\<close> matches the 52 ASCII letters only.
\<close>

definition is_space :: "char \<Rightarrow> bool" where
  "is_space c = ((of_char c :: nat) \<in> {9, 10, 11, 12, 13, 32, 160})"

definition is_digit :: "char \<Rightarrow> bool" where
  "is_digit c = (48 \<le> (of_char c :: nat) \<and> (of_char c :: nat) \<le> 57)"

definition is_letter :: "char \<Rightarrow> bool" where
  "is_letter c =
     ((97 \<le> (of_char c :: nat) \<and> (of_char c :: nat) \<le> 122) \<or>
      (65 \<le> (of_char c :: nat) \<and> (of_char c :: nat) \<le> 90))"

text \<open>
  \<^verbatim>\<open>RE.test(x)\<close> converts \<open>x\<close> to a string and searches it for a match: a
  one-character class matches if some character of the string is in the class.
\<close>

definition WS_test :: "char option \<Rightarrow> bool" where
  "WS_test ch = list_ex is_space (to_string ch)"

definition NUMBER_test :: "char option \<Rightarrow> bool" where
  "NUMBER_test ch = list_ex is_digit (to_string ch)"

definition LETTER_test :: "char option \<Rightarrow> bool" where
  "LETTER_test ch = list_ex is_letter (to_string ch)"

text \<open>
  The string-mode loop (lines 73 to 76): \<^verbatim>\<open>while (char !== '"') { value += char;
  char = input[++current]; }\<close>. It is entered with \<open>current\<close> already on the character
  after the opening quote and returns \<open>current\<close> on the closing quote.
\<close>

partial_function (option) string_loop_on ::
  "engine \<Rightarrow> string \<Rightarrow> nat \<Rightarrow> string \<Rightarrow> char option \<Rightarrow> (error + nat \<times> string) option" where
  "string_loop_on eng input current val ch =
     (if ch \<noteq> Some (CHR 0x22) then
        (case append_string eng val (to_string ch) of
           Inl e \<Rightarrow> Some (Inl e)
         | Inr val' \<Rightarrow> string_loop_on eng input (current + 1) val' (char_at input (current + 1)))
      else Some (Inr (current, val)))"

text \<open>
  The letter loop (lines 90 to 93): \<^verbatim>\<open>while (LETTER.test(char)) { value += char;
  char = input[++current]; }\<close>.
\<close>

partial_function (option) name_loop_on ::
  "engine \<Rightarrow> string \<Rightarrow> nat \<Rightarrow> string \<Rightarrow> char option \<Rightarrow> (error + nat \<times> string) option" where
  "name_loop_on eng input current val ch =
     (if LETTER_test ch then
        (case append_string eng val (to_string ch) of
           Inl e \<Rightarrow> Some (Inl e)
         | Inr val' \<Rightarrow> name_loop_on eng input (current + 1) val' (char_at input (current + 1)))
      else Some (Inr (current, val)))"

text \<open>
  The main loop (lines 39 to 104), one call per iteration of
  \<^verbatim>\<open>while (current < input.length)\<close>, with the rules in the order of the source.
\<close>

partial_function (option) tokenizer_loop_on ::
  "engine \<Rightarrow> string \<Rightarrow> nat \<Rightarrow> token list \<Rightarrow> (error + token list) option" where
  "tokenizer_loop_on eng input current tokens =
     (if current < length input then
        (let ch = char_at input current in
         if ch = Some CHR ''('' \<or> ch = Some CHR '')'' then
           (case array_push eng tokens \<lparr>ttype = Paren, tvalue = to_string ch\<rparr> of
              Inl e \<Rightarrow> Some (Inl e)
            | Inr tokens' \<Rightarrow> tokenizer_loop_on eng input (current + 1) tokens')
         else if WS_test ch then
           tokenizer_loop_on eng input (current + 1) tokens
         else if NUMBER_test ch then
           (case array_push eng tokens \<lparr>ttype = Number, tvalue = to_string ch\<rparr> of
              Inl e \<Rightarrow> Some (Inl e)
            | Inr tokens' \<Rightarrow> tokenizer_loop_on eng input (current + 1) tokens')
         else if ch = Some (CHR 0x22) then
           string_loop_on eng input (current + 1) [] (char_at input (current + 1)) \<bind>
             (\<lambda>r. case r of
                Inl e \<Rightarrow> Some (Inl e)
              | Inr (current', val) \<Rightarrow>
                  (case array_push eng tokens \<lparr>ttype = String, tvalue = val\<rparr> of
                     Inl e \<Rightarrow> Some (Inl e)
                   | Inr tokens' \<Rightarrow> tokenizer_loop_on eng input (current' + 1) tokens'))
         else if LETTER_test ch then
           name_loop_on eng input current [] ch \<bind>
             (\<lambda>r. case r of
                Inl e \<Rightarrow> Some (Inl e)
              | Inr (current', val) \<Rightarrow>
                  (case array_push eng tokens \<lparr>ttype = Name, tvalue = val\<rparr> of
                     Inl e \<Rightarrow> Some (Inl e)
                   | Inr tokens' \<Rightarrow> tokenizer_loop_on eng input current' tokens'))
         else
           (case append_string eng ''I dont know what this character is: '' (to_string ch) of
              Inl e \<Rightarrow> Some (Inl e)
            | Inr message \<Rightarrow> Some (Inl (SyntaxError message))))
      else Some (Inr tokens))"

definition tokenizer_on :: "engine \<Rightarrow> string \<Rightarrow> (error + token list) option" where
  "tokenizer_on eng input = tokenizer_loop_on eng input 0 []"

declare string_loop_on.simps [code] name_loop_on.simps [code] tokenizer_loop_on.simps [code]

text \<open>The tokenizer and its loops on the engine without limits.\<close>

abbreviation string_loop :: "string \<Rightarrow> nat \<Rightarrow> string \<Rightarrow> char option \<Rightarrow> (error + nat \<times> string) option" where
  "string_loop \<equiv> string_loop_on unbounded"

abbreviation name_loop :: "string \<Rightarrow> nat \<Rightarrow> string \<Rightarrow> char option \<Rightarrow> (error + nat \<times> string) option" where
  "name_loop \<equiv> name_loop_on unbounded"

abbreviation tokenizer_loop :: "string \<Rightarrow> nat \<Rightarrow> token list \<Rightarrow> (error + token list) option" where
  "tokenizer_loop \<equiv> tokenizer_loop_on unbounded"

abbreviation tokenizer :: "string \<Rightarrow> (error + token list) option" where
  "tokenizer \<equiv> tokenizer_on unbounded"

section \<open>Parser\<close>

text \<open>
  Every object literal of the parser creates a new object, with an identity of its own;
  the objects are numbered here in the order of their creation (\<open>oid\<close>). The transformer
  later assigns a \<^verbatim>\<open>_context\<close> field to some of these objects, so the identity is part
  of the data. \<open>Undefined\<close> is the value \<^verbatim>\<open>undefined\<close>, which \<^verbatim>\<open>walk\<close> returns (and the
  loops push) when no branch of \<^verbatim>\<open>walk\<close> matches the token.
\<close>

type_synonym oid = nat

datatype node =
    Program oid "node list"
  | CallExpression oid string "node list"
  | NumberLiteral oid string
  | StringLiteral oid string
  | Undefined

definition token_at :: "token list \<Rightarrow> nat \<Rightarrow> token option" where
  "token_at tokens i = (if i < length tokens then Some (tokens ! i) else None)"

text \<open>
  \<^verbatim>\<open>walk\<close> (lines 112 to 151) and the \<^verbatim>\<open>while\<close> loop inside it (lines 142 to 145) call
  each other, so they are one function with two entry points. With no pending call,
  \<open>walk_on eng tokens None current fresh\<close> is a call of \<^verbatim>\<open>walk()\<close> with the cursor on
  \<open>current\<close>; with \<open>Some (i, name, params)\<close> it stands at the head of the \<^verbatim>\<open>while\<close>
  loop, \<^verbatim>\<open>node\<close> being the \<^verbatim>\<open>CallExpression\<close> object \<open>i\<close> with its name and the params
  pushed so far. \<open>fresh\<close> is the number of the next object. The result is the node
  returned, the cursor and the next object number.
\<close>

partial_function (option) walk_on ::
  "engine \<Rightarrow> token list \<Rightarrow> (oid \<times> string \<times> node list) option \<Rightarrow> nat \<Rightarrow> oid
     \<Rightarrow> (error + node \<times> nat \<times> oid) option" where
  "walk_on eng tokens pending current fresh =
     (case pending of
        None \<Rightarrow>
          (case token_at tokens current of
             None \<Rightarrow> Some (Inl (UndefinedAccess ''type''))
           | Some token \<Rightarrow>
               if ttype token = Number then
                 Some (Inr (NumberLiteral fresh (tvalue token), current + 1, fresh + 1))
               else if ttype token = String then
                 Some (Inr (StringLiteral fresh (tvalue token), current + 1, fresh + 1))
               else if ttype token = Paren \<and> tvalue token = ''('' then
                 (case token_at tokens (current + 1) of
                    None \<Rightarrow> Some (Inl (UndefinedAccess ''value''))
                  | Some token' \<Rightarrow>
                      walk_on eng tokens (Some (fresh, tvalue token', [])) (current + 2) (fresh + 1))
               else Some (Inr (Undefined, current, fresh)))
      | Some (i, name, params) \<Rightarrow>
          (case token_at tokens current of
             None \<Rightarrow> Some (Inl (UndefinedAccess ''type''))
           | Some token \<Rightarrow>
               if ttype token \<noteq> Paren \<or> (ttype token = Paren \<and> tvalue token \<noteq> '')'') then
                 walk_on eng tokens None current fresh \<bind>
                   (\<lambda>r. case r of
                      Inl e \<Rightarrow> Some (Inl e)
                    | Inr (n, current', fresh') \<Rightarrow>
                        (case array_push eng params n of
                           Inl e \<Rightarrow> Some (Inl e)
                         | Inr params' \<Rightarrow>
                             walk_on eng tokens (Some (i, name, params')) current' fresh'))
               else Some (Inr (CallExpression i name params, current + 1, fresh))))"

text \<open>
  The top-level loop (lines 159 to 162), \<^verbatim>\<open>while (current < tokens.length)
  ast.body.push(walk())\<close>, and \<^verbatim>\<open>parser\<close> itself: the \<^verbatim>\<open>Program\<close> object is created
  before the first call of \<^verbatim>\<open>walk\<close>, so it is object 0.
\<close>

partial_function (option) parser_loop_on ::
  "engine \<Rightarrow> token list \<Rightarrow> nat \<Rightarrow> oid \<Rightarrow> node list \<Rightarrow> (error + node list) option" where
  "parser_loop_on eng tokens current fresh body =
     (if current < length tokens then
        walk_on eng tokens None current fresh \<bind>
          (\<lambda>r. case r of
             Inl e \<Rightarrow> Some (Inl e)
           | Inr (n, current', fresh') \<Rightarrow>
               (case array_push eng body n of
                  Inl e \<Rightarrow> Some (Inl e)
                | Inr body' \<Rightarrow> parser_loop_on eng tokens current' fresh' body'))
      else Some (Inr body))"

definition parser_on :: "engine \<Rightarrow> token list \<Rightarrow> (error + node) option" where
  "parser_on eng tokens =
     parser_loop_on eng tokens 0 1 [] \<bind>
       (\<lambda>r. case r of Inl e \<Rightarrow> Some (Inl e) | Inr body \<Rightarrow> Some (Inr (Program 0 body)))"

declare walk_on.simps [code] parser_loop_on.simps [code]

text \<open>The parser and its loops on the engine without limits.\<close>

abbreviation walk ::
  "token list \<Rightarrow> (oid \<times> string \<times> node list) option \<Rightarrow> nat \<Rightarrow> oid
     \<Rightarrow> (error + node \<times> nat \<times> oid) option" where
  "walk \<equiv> walk_on unbounded"

abbreviation parser_loop ::
  "token list \<Rightarrow> nat \<Rightarrow> oid \<Rightarrow> node list \<Rightarrow> (error + node list) option" where
  "parser_loop \<equiv> parser_loop_on unbounded"

abbreviation parser :: "token list \<Rightarrow> (error + node) option" where
  "parser \<equiv> parser_on unbounded"

section \<open>Traverser\<close>

text \<open>
  \<^verbatim>\<open>node.type\<close> is a string, and the visitor is an object keyed by these strings whose
  entries have an optional \<^verbatim>\<open>enter\<close> and an optional \<^verbatim>\<open>exit\<close> method. A method is called
  as \<^verbatim>\<open>(node, parent)\<close>, the parent of the root being \<^verbatim>\<open>null\<close> (\<^term>\<open>None\<close>); what it
  does to the world outside the tree is a change of a state \<open>'s\<close>, or an exception.
  Reading \<^verbatim>\<open>node.type\<close> of \<^verbatim>\<open>undefined\<close> is the engine's error.
\<close>

fun type_of :: "node \<Rightarrow> string option" where
  "type_of (Program i body) = Some ''Program''"
| "type_of (CallExpression i name params) = Some ''CallExpression''"
| "type_of (NumberLiteral i v) = Some ''NumberLiteral''"
| "type_of (StringLiteral i v) = Some ''StringLiteral''"
| "type_of Undefined = None"

type_synonym 's callback = "node \<Rightarrow> node option \<Rightarrow> 's \<Rightarrow> error + 's"

record 's methods =
  enter :: "'s callback option"
  exit :: "'s callback option"

type_synonym 's visitor = "string \<rightharpoonup> 's methods"

text \<open>
  \<^verbatim>\<open>if (methods && methods.enter) methods.enter(node, parent)\<close>, and the same for
  \<^verbatim>\<open>exit\<close>.
\<close>

definition call_enter :: "'s methods option \<Rightarrow> 's callback" where
  "call_enter methods node parent s =
     (case methods of
        None \<Rightarrow> Inr s
      | Some m \<Rightarrow> (case enter m of None \<Rightarrow> Inr s | Some f \<Rightarrow> f node parent s))"

definition call_exit :: "'s methods option \<Rightarrow> 's callback" where
  "call_exit methods node parent s =
     (case methods of
        None \<Rightarrow> Inr s
      | Some m \<Rightarrow> (case exit m of None \<Rightarrow> Inr s | Some f \<Rightarrow> f node parent s))"

text \<open>
  \<^verbatim>\<open>traverseArray\<close> and \<^verbatim>\<open>traverseNode\<close> (lines 170 to 200). The \<^verbatim>\<open>default\<close> branch
  of the \<^verbatim>\<open>switch\<close>, \<^verbatim>\<open>throw new TypeError(node.type)\<close>, needs a node whose type is
  none of the four; \<^typ>\<open>node\<close> has no such value.
\<close>

fun traverseArray :: "'s visitor \<Rightarrow> node list \<Rightarrow> node option \<Rightarrow> 's \<Rightarrow> error + 's"
  and traverseNode :: "'s visitor \<Rightarrow> node \<Rightarrow> node option \<Rightarrow> 's \<Rightarrow> error + 's" where
  "traverseArray visitor [] parent s = Inr s"
| "traverseArray visitor (child # rest) parent s =
     (case traverseNode visitor child parent s of
        Inl e \<Rightarrow> Inl e
      | Inr s' \<Rightarrow> traverseArray visitor rest parent s')"
| "traverseNode visitor node parent s =
     (case type_of node of
        None \<Rightarrow> Inl (UndefinedAccess ''type'')
      | Some t \<Rightarrow>
          (let methods = visitor t in
           case call_enter methods node parent s of
             Inl e \<Rightarrow> Inl e
           | Inr s1 \<Rightarrow>
               (case (case node of
                        Program i body \<Rightarrow> traverseArray visitor body (Some node) s1
                      | CallExpression i name params \<Rightarrow>
                          traverseArray visitor params (Some node) s1
                      | _ \<Rightarrow> Inr s1) of
                  Inl e \<Rightarrow> Inl e
                | Inr s2 \<Rightarrow> call_exit methods node parent s2)))"

definition traverser :: "node \<Rightarrow> 's visitor \<Rightarrow> 's \<Rightarrow> error + 's" where
  "traverser ast visitor s = traverseNode visitor ast None s"

section \<open>Transformer\<close>

text \<open>
  The transformer builds the target tree by pushing into arrays that are reached through
  two references at once: the \<^verbatim>\<open>body\<close> or \<^verbatim>\<open>arguments\<close> field of a target object, and the
  \<^verbatim>\<open>_context\<close> field of a source object. So the arrays live in a store, addressed by
  their number in the order of creation, and a target object holds the address of its
  array.

  A target object is written as an object literal and never assigned to afterwards, so
  it is a value. Its first component is its \<^verbatim>\<open>_context\<close> field: \<^term>\<open>None\<close> when the
  literal has no such field, as in every literal of the source.

  A source object is assigned to after the parser has created it:
  \<^verbatim>\<open>ast._context = ...\<close> (line 213) and \<^verbatim>\<open>node._context = ...\<close> (line 246). An
  assignment \<^verbatim>\<open>obj.f = ref\<close> to the source object \<open>i\<close> is an entry of \<open>properties\<close>, at
  \<open>i\<close> and the name \<open>f\<close> of the field; the fields that the parser gave the object are
  in the tree. The methods of the transformer read \<^verbatim>\<open>_context\<close>, which only an
  assignment can have set, from \<open>properties\<close>, and \<^verbatim>\<open>type\<close>, \<^verbatim>\<open>name\<close> and \<^verbatim>\<open>value\<close>
  from the tree.
\<close>

type_synonym addr = nat

datatype tobj =
    OProgram "addr option" addr
  | OExpressionStatement "addr option" tobj
  | OCallExpression "addr option" tobj addr
  | OIdentifier "addr option" string
  | ONumberLiteral "addr option" string
  | OStringLiteral "addr option" string

record tstate =
  properties :: "oid \<Rightarrow> string \<rightharpoonup> addr"
  arrays :: "tobj list list"

definition new_array :: "tstate \<Rightarrow> addr \<times> tstate" where
  "new_array s = (length (arrays s), s\<lparr>arrays := arrays s @ [[]]\<rparr>)"

text \<open>
  \<^verbatim>\<open>array.push(x)\<close> through a reference \<open>a\<close>. A reference is only ever obtained from
  \<open>new_array\<close>, so it is an address of the store.
\<close>

definition push :: "addr \<Rightarrow> tobj \<Rightarrow> tstate \<Rightarrow> tstate" where
  "push a x s = s\<lparr>arrays := (arrays s)[a := arrays s ! a @ [x]]\<rparr>"

text \<open>The assignment \<^verbatim>\<open>obj.f = a\<close> to the source object \<open>i\<close>.\<close>

definition assign :: "oid \<Rightarrow> string \<Rightarrow> addr \<Rightarrow> tstate \<Rightarrow> tstate" where
  "assign i f a s = s\<lparr>properties := (properties s)(i := (properties s i)(f \<mapsto> a))\<rparr>"

fun oid_of :: "node \<Rightarrow> oid option" where
  "oid_of (Program i body) = Some i"
| "oid_of (CallExpression i name params) = Some i"
| "oid_of (NumberLiteral i v) = Some i"
| "oid_of (StringLiteral i v) = Some i"
| "oid_of Undefined = None"

text \<open>
  \<^verbatim>\<open>parent._context\<close>, as the receiver of \<^verbatim>\<open>push\<close>: reading \<^verbatim>\<open>_context\<close> of \<^verbatim>\<open>null\<close>
  fails, and so does reading \<^verbatim>\<open>push\<close> of a \<^verbatim>\<open>_context\<close> that was never set.
\<close>

definition parent_context :: "node option \<Rightarrow> tstate \<Rightarrow> error + addr" where
  "parent_context parent s =
     (case parent of
        None \<Rightarrow> Inl (UndefinedAccess ''_context'')
      | Some p \<Rightarrow>
          (case oid_of p of
             None \<Rightarrow> Inl (UndefinedAccess ''_context'')
           | Some i \<Rightarrow>
               (case properties s i ''_context'' of
                  None \<Rightarrow> Inl (UndefinedAccess ''push'')
                | Some a \<Rightarrow> Inr a)))"

text \<open>
  The three \<^verbatim>\<open>enter\<close> methods (lines 217 to 257). The traverser calls the entry
  \<^verbatim>\<open>visitor[node.type]\<close> only, so each method sees nodes of its own type; the last
  equation of each is never used.
\<close>

fun NumberLiteral_enter :: "tstate callback" where
  "NumberLiteral_enter (NumberLiteral i v) parent s =
     (case parent_context parent s of
        Inl e \<Rightarrow> Inl e
      | Inr a \<Rightarrow> Inr (push a (ONumberLiteral None v) s))"
| "NumberLiteral_enter node parent s = Inr s"

fun StringLiteral_enter :: "tstate callback" where
  "StringLiteral_enter (StringLiteral i v) parent s =
     (case parent_context parent s of
        Inl e \<Rightarrow> Inl e
      | Inr a \<Rightarrow> Inr (push a (OStringLiteral None v) s))"
| "StringLiteral_enter node parent s = Inr s"

fun CallExpression_enter :: "tstate callback" where
  "CallExpression_enter (CallExpression i name params) parent s =
     (let (a, s1) = new_array s;
          expression = OCallExpression None (OIdentifier None name) a;
          s2 = assign i ''_context'' a s1
      in case parent of
           None \<Rightarrow> Inl (UndefinedAccess ''type'')
         | Some p \<Rightarrow>
             (case type_of p of
                None \<Rightarrow> Inl (UndefinedAccess ''type'')
              | Some t \<Rightarrow>
                  (let expression' =
                         (if t \<noteq> ''CallExpression''
                          then OExpressionStatement None expression else expression)
                   in case parent_context parent s2 of
                        Inl e \<Rightarrow> Inl e
                      | Inr pa \<Rightarrow> Inr (push pa expression' s2))))"
| "CallExpression_enter node parent s = Inr s"

definition transformer_visitor :: "tstate visitor" where
  "transformer_visitor =
     [''NumberLiteral'' \<mapsto> \<lparr>enter = Some NumberLiteral_enter, exit = None\<rparr>,
      ''StringLiteral'' \<mapsto> \<lparr>enter = Some StringLiteral_enter, exit = None\<rparr>,
      ''CallExpression'' \<mapsto> \<lparr>enter = Some CallExpression_enter, exit = None\<rparr>]"

text \<open>
  \<^verbatim>\<open>transformer\<close> (lines 206 to 261) returns the reference \<^verbatim>\<open>newAst\<close>; the objects it
  refers to are in the final store, which is returned with it, and so are the fields
  that were assigned to the source objects.
\<close>

definition transformer :: "node \<Rightarrow> error + tobj \<times> tstate" where
  "transformer ast =
     (let (body, s1) = new_array \<lparr>properties = (\<lambda>i. Map.empty), arrays = []\<rparr>;
          newAst = OProgram None body
      in case oid_of ast of
           None \<Rightarrow> Inl (UndefinedAccess ''_context'')
         | Some i \<Rightarrow>
             (let s2 = assign i ''_context'' body s1
              in case traverser ast transformer_visitor s2 of
                   Inl e \<Rightarrow> Inl e
                 | Inr s3 \<Rightarrow> Inr (newAst, s3)))"

section \<open>Code generator\<close>

text \<open>
  The code generator only reads the \<^verbatim>\<open>type\<close> of a target object and the fields that go
  with the type, so it is a function of the tree of these fields that the reference
  \<^verbatim>\<open>newAst\<close> reaches in the store: \<open>tree_of n arrs x\<close> follows at most \<open>n\<close> array
  references below \<open>x\<close>, and is \<^term>\<open>None\<close> when an address is not in the store or \<open>n\<close>
  references are not enough. Addresses are handed out in increasing order and an array
  only receives objects whose own array is newer, so the number of arrays bounds the
  depth (\<open>target_tree\<close>).
\<close>

datatype tnode =
    TProgram "tnode list"
  | TExpressionStatement tnode
  | TCallExpression tnode "tnode list"
  | TIdentifier string
  | TNumberLiteral string
  | TStringLiteral string

fun tree_of :: "nat \<Rightarrow> tobj list list \<Rightarrow> tobj \<Rightarrow> tnode option" where
  "tree_of n arrs (OIdentifier c name) = Some (TIdentifier name)"
| "tree_of n arrs (ONumberLiteral c v) = Some (TNumberLiteral v)"
| "tree_of n arrs (OStringLiteral c v) = Some (TStringLiteral v)"
| "tree_of n arrs (OExpressionStatement c x) = map_option TExpressionStatement (tree_of n arrs x)"
| "tree_of 0 arrs (OProgram c a) = None"
| "tree_of 0 arrs (OCallExpression c callee a) = None"
| "tree_of (Suc n) arrs (OProgram c a) =
     (if a < length arrs
      then map_option TProgram (those (map (tree_of n arrs) (arrs ! a)))
      else None)"
| "tree_of (Suc n) arrs (OCallExpression c callee a) =
     (if a < length arrs
      then (case tree_of (Suc n) arrs callee of
              None \<Rightarrow> None
            | Some c \<Rightarrow> map_option (TCallExpression c) (those (map (tree_of n arrs) (arrs ! a))))
      else None)"

definition target_tree :: "tobj \<times> tstate \<Rightarrow> tnode option" where
  "target_tree r = tree_of (length (arrays (snd r))) (arrays (snd r)) (fst r)"

text \<open>\<^verbatim>\<open>Array.prototype.join\<close> on an array of strings.\<close>

fun join :: "string \<Rightarrow> string list \<Rightarrow> string" where
  "join sep [] = []"
| "join sep [x] = x"
| "join sep (x # y # ys) = x @ sep @ join sep (y # ys)"

text \<open>
  \<^verbatim>\<open>codeGenerator\<close> (lines 264 to 284). Its \<^verbatim>\<open>default\<close> branch needs a node whose type
  is none of the six; \<^typ>\<open>tnode\<close> has no such value.
\<close>

fun codeGenerator :: "tnode \<Rightarrow> string" where
  "codeGenerator (TProgram body) = join [CHR 0x0A] (map codeGenerator body)"
| "codeGenerator (TExpressionStatement expression) = codeGenerator expression @ '';''"
| "codeGenerator (TCallExpression callee arguments) =
     codeGenerator callee @ ''('' @ join '', '' (map codeGenerator arguments) @ '')''"
| "codeGenerator (TIdentifier name) = name"
| "codeGenerator (TNumberLiteral v) = v"
| "codeGenerator (TStringLiteral v) = [CHR 0x22] @ v @ [CHR 0x22]"

section \<open>The pipeline\<close>

text \<open>
  Lines 286 to 289 run the four stages one after the other; an exception of a stage
  ends the run, and so does a stage that does not return. On a store in which \<^verbatim>\<open>newAst\<close>
  reached no finite tree the code generator would not return either; the transformer
  builds no such store (lemma \<open>transformer_Program\<close>). \<open>compile\<close> is the pipeline on the
  engine without limits.
\<close>

definition compile_on :: "engine \<Rightarrow> string \<Rightarrow> (error + string) option" where
  "compile_on eng input =
     (case tokenizer_on eng input of
        None \<Rightarrow> None
      | Some (Inl e) \<Rightarrow> Some (Inl e)
      | Some (Inr tokens) \<Rightarrow>
          (case parser_on eng tokens of
             None \<Rightarrow> None
           | Some (Inl e) \<Rightarrow> Some (Inl e)
           | Some (Inr ast) \<Rightarrow>
               (case transformer ast of
                  Inl e \<Rightarrow> Some (Inl e)
                | Inr newAST \<Rightarrow>
                    (case target_tree newAST of
                       None \<Rightarrow> None
                     | Some t \<Rightarrow> Some (Inr (codeGenerator t))))))"

abbreviation compile :: "string \<Rightarrow> (error + string) option" where
  "compile \<equiv> compile_on unbounded"

section \<open>Notions used in the statements\<close>

text \<open>
  An error of the run is thrown by the program when it comes from one of its \<^verbatim>\<open>throw\<close>
  statements, and not from the engine.
\<close>

definition fails_with_thrown :: "(error + 'a) option \<Rightarrow> bool" where
  "fails_with_thrown r = (case r of Some (Inl e) \<Rightarrow> thrown_by_program e | _ \<Rightarrow> False)"

text \<open>A character for which the main loop of the tokenizer has no rule.\<close>

definition unknown_char :: "char \<Rightarrow> bool" where
  "unknown_char c =
     (c \<noteq> CHR ''('' \<and> c \<noteq> CHR '')'' \<and> \<not> is_space c \<and> \<not> is_digit c \<and>
      c \<noteq> CHR 0x22 \<and> \<not> is_letter c)"

text \<open>A token that, if it is a \<^verbatim>\<open>number\<close> token, has exactly one character, a digit.\<close>

definition one_digit :: "token \<Rightarrow> bool" where
  "one_digit t =
     (if ttype t = Number then length (tvalue t) = 1 \<and> list_all is_digit (tvalue t)
      else True)"

subsection \<open>The order of a depth-first traversal\<close>

text \<open>
  A tree built from the four node types has no \<^verbatim>\<open>undefined\<close> in it.
\<close>

fun defined :: "node \<Rightarrow> bool" where
  "defined (Program i body) = list_all defined body"
| "defined (CallExpression i name params) = list_all defined params"
| "defined (NumberLiteral i v) = True"
| "defined (StringLiteral i v) = True"
| "defined Undefined = False"

text \<open>
  The order the specification describes, written down on its own: a node is entered,
  then its children are visited from left to right (the \<^verbatim>\<open>body\<close> of a \<^verbatim>\<open>Program\<close>, the
  \<^verbatim>\<open>params\<close> of a \<^verbatim>\<open>CallExpression\<close>), each with the node as its parent, then the
  node is left. A literal has no children.
\<close>

datatype event = Enter node "node option" | Exit node "node option"

fun event_node :: "event \<Rightarrow> node" where
  "event_node (Enter node parent) = node"
| "event_node (Exit node parent) = node"

fun event_parent :: "event \<Rightarrow> node option" where
  "event_parent (Enter node parent) = parent"
| "event_parent (Exit node parent) = parent"

fun depth_first :: "node \<Rightarrow> node option \<Rightarrow> event list" where
  "depth_first (Program i body) parent =
     Enter (Program i body) parent #
     concat (map (\<lambda>child. depth_first child (Some (Program i body))) body) @
     [Exit (Program i body) parent]"
| "depth_first (CallExpression i name params) parent =
     Enter (CallExpression i name params) parent #
     concat (map (\<lambda>child. depth_first child (Some (CallExpression i name params))) params) @
     [Exit (CallExpression i name params) parent]"
| "depth_first node parent = [Enter node parent, Exit node parent]"

text \<open>
  What an event does on a visitor, written down without the traverser: the callback
  registered for the event is the \<^verbatim>\<open>enter\<close> method, for an \<open>Enter\<close>, or the \<^verbatim>\<open>exit\<close>
  method, for an \<open>Exit\<close>, of the visitor's entry for the type of the node; there is none
  when the visitor has no entry for the type, or the entry has no such method. The
  event calls the registered callback with \<^verbatim>\<open>(node, parent)\<close>, and does nothing when
  there is none. \<open>run_events\<close> makes the calls of a list of events in the order of the
  list; an exception ends the run.
\<close>

fun type_name :: "node \<Rightarrow> string" where
  "type_name (Program i body) = ''Program''"
| "type_name (CallExpression i name params) = ''CallExpression''"
| "type_name (NumberLiteral i v) = ''NumberLiteral''"
| "type_name (StringLiteral i v) = ''StringLiteral''"
| "type_name Undefined = ''undefined''"

fun method_for :: "'s visitor \<Rightarrow> event \<Rightarrow> 's callback option" where
  "method_for visitor (Enter node parent) =
     (case visitor (type_name node) of None \<Rightarrow> None | Some m \<Rightarrow> enter m)"
| "method_for visitor (Exit node parent) =
     (case visitor (type_name node) of None \<Rightarrow> None | Some m \<Rightarrow> exit m)"

definition run_event :: "'s visitor \<Rightarrow> event \<Rightarrow> 's \<Rightarrow> error + 's" where
  "run_event visitor e s =
     (case method_for visitor e of
        None \<Rightarrow> Inr s
      | Some f \<Rightarrow> f (event_node e) (event_parent e) s)"

fun run_events :: "'s visitor \<Rightarrow> event list \<Rightarrow> 's \<Rightarrow> error + 's" where
  "run_events visitor [] s = Inr s"
| "run_events visitor (e # es) s =
     (case run_event visitor e s of
        Inl x \<Rightarrow> Inl x
      | Inr s' \<Rightarrow> run_events visitor es s')"

text \<open>
  Visitors that write each call they receive, with its two arguments, at the end of a
  log. \<open>recorder_for ens exs\<close> has an \<^verbatim>\<open>enter\<close> method for the types \<open>ens\<close> and an
  \<^verbatim>\<open>exit\<close> method for the types \<open>exs\<close>, and no entry for a type that is in neither
  list; an entry may so have one method and not the other, as the entries of the
  transformer's visitor have. \<open>heard ens exs e\<close>: the event \<open>e\<close> has a callback
  registered in this visitor.
\<close>

definition record_enter :: "event list callback" where
  "record_enter node parent log = Inr (log @ [Enter node parent])"

definition record_exit :: "event list callback" where
  "record_exit node parent log = Inr (log @ [Exit node parent])"

definition recorder_for :: "string list \<Rightarrow> string list \<Rightarrow> event list visitor" where
  "recorder_for ens exs t =
     (if t \<in> set ens \<or> t \<in> set exs
      then Some \<lparr>enter = (if t \<in> set ens then Some record_enter else None),
                 exit = (if t \<in> set exs then Some record_exit else None)\<rparr>
      else None)"

fun heard :: "string list \<Rightarrow> string list \<Rightarrow> event \<Rightarrow> bool" where
  "heard ens exs (Enter node parent) = (type_name node \<in> set ens)"
| "heard ens exs (Exit node parent) = (type_name node \<in> set exs)"

subsection \<open>Well-formed programs and their target trees\<close>

text \<open>
  An expression is a call, with expressions as params, or a literal. A \<^verbatim>\<open>Program\<close> is
  well formed when its body is a list of expressions and the \<^verbatim>\<open>Program\<close> object and the
  \<^verbatim>\<open>CallExpression\<close> objects in it (\<open>call_oids\<close>) are different objects. Every tree that
  the parser returns is of this kind (lemma \<open>parser_result\<close>).
\<close>

fun expr :: "node \<Rightarrow> bool" where
  "expr (CallExpression i name params) = list_all expr params"
| "expr (NumberLiteral i v) = True"
| "expr (StringLiteral i v) = True"
| "expr (Program i body) = False"
| "expr Undefined = False"

fun call_oids :: "node \<Rightarrow> oid list" where
  "call_oids (Program i body) = concat (map call_oids body)"
| "call_oids (CallExpression i name params) = i # concat (map call_oids params)"
| "call_oids (NumberLiteral i v) = []"
| "call_oids (StringLiteral i v) = []"
| "call_oids Undefined = []"

fun well_formed :: "node \<Rightarrow> bool" where
  "well_formed (Program i body) =
     (list_all expr body \<and> distinct (i # concat (map call_oids body)))"
| "well_formed node = False"

text \<open>
  The target tree of the specification, as a map on the structure of the source tree:
  a literal becomes the target literal with the same value; a call becomes a target call
  whose callee is the identifier of its name and whose arguments are the images of its
  params, and it is wrapped in an \<^verbatim>\<open>ExpressionStatement\<close> unless its parent is a call
  (\<open>in_call\<close>); a \<^verbatim>\<open>Program\<close> becomes the \<^verbatim>\<open>Program\<close> of the images of its body. No
  identity of an object and no address of the store occurs in the image.
\<close>

fun lowered :: "bool \<Rightarrow> node \<Rightarrow> tnode" where
  "lowered in_call (NumberLiteral i v) = TNumberLiteral v"
| "lowered in_call (StringLiteral i v) = TStringLiteral v"
| "lowered in_call (CallExpression i name params) =
     (if in_call
      then TCallExpression (TIdentifier name) (map (lowered True) params)
      else TExpressionStatement
             (TCallExpression (TIdentifier name) (map (lowered True) params)))"
| "lowered in_call (Program i body) = TProgram (map (lowered False) body)"
| "lowered in_call Undefined = TProgram []"

text \<open>
  What stands in the target body for a node of the source body: the literal itself for
  a literal, an \<^verbatim>\<open>ExpressionStatement\<close> for a call.
\<close>

fun top_level :: "node \<Rightarrow> tnode \<Rightarrow> bool" where
  "top_level (NumberLiteral i v) t = (t = TNumberLiteral v)"
| "top_level (StringLiteral i v) t = (t = TStringLiteral v)"
| "top_level (CallExpression i name params) t =
     (case t of TExpressionStatement c \<Rightarrow> True | _ \<Rightarrow> False)"
| "top_level node t = False"

subsection \<open>The fields of the objects after the transformation\<close>

text \<open>
  A target object carries the bookkeeping field when it, or an object inside it (the
  \<^verbatim>\<open>expression\<close> of a statement, the \<^verbatim>\<open>callee\<close> of a call), has a \<^verbatim>\<open>_context\<close>.
\<close>

fun carries_context :: "tobj \<Rightarrow> bool" where
  "carries_context (OProgram c a) = (case c of Some r \<Rightarrow> True | None \<Rightarrow> False)"
| "carries_context (OExpressionStatement c x) =
     (case c of Some r \<Rightarrow> True | None \<Rightarrow> carries_context x)"
| "carries_context (OCallExpression c callee a) =
     (case c of Some r \<Rightarrow> True | None \<Rightarrow> carries_context callee)"
| "carries_context (OIdentifier c name) = (case c of Some r \<Rightarrow> True | None \<Rightarrow> False)"
| "carries_context (ONumberLiteral c v) = (case c of Some r \<Rightarrow> True | None \<Rightarrow> False)"
| "carries_context (OStringLiteral c v) = (case c of Some r \<Rightarrow> True | None \<Rightarrow> False)"

text \<open>
  The fields of a source object. \<open>field n f\<close> is the field \<open>f\<close> as the parser's object
  literal set it: a text, or the array of the child nodes. \<open>field_after s n f\<close> is what
  reading \<^verbatim>\<open>n.f\<close> gives in the state \<open>s\<close>: the reference that was assigned to the field,
  if one was, and the field of the literal otherwise. The public fields are the five
  that the parser writes.
\<close>

datatype fvalue = Text string | Nodes "node list" | Array addr

fun field :: "node \<Rightarrow> string \<Rightarrow> fvalue option" where
  "field (Program i body) f =
     (if f = ''type'' then Some (Text ''Program'')
      else if f = ''body'' then Some (Nodes body) else None)"
| "field (CallExpression i name params) f =
     (if f = ''type'' then Some (Text ''CallExpression'')
      else if f = ''name'' then Some (Text name)
      else if f = ''params'' then Some (Nodes params) else None)"
| "field (NumberLiteral i v) f =
     (if f = ''type'' then Some (Text ''NumberLiteral'')
      else if f = ''value'' then Some (Text v) else None)"
| "field (StringLiteral i v) f =
     (if f = ''type'' then Some (Text ''StringLiteral'')
      else if f = ''value'' then Some (Text v) else None)"
| "field Undefined f = None"

definition field_after :: "tstate \<Rightarrow> node \<Rightarrow> string \<Rightarrow> fvalue option" where
  "field_after s n f =
     (case oid_of n of
        None \<Rightarrow> None
      | Some i \<Rightarrow> (case properties s i f of Some a \<Rightarrow> Some (Array a) | None \<Rightarrow> field n f))"

fun nodes_of :: "node \<Rightarrow> node list" where
  "nodes_of (Program i body) = Program i body # concat (map nodes_of body)"
| "nodes_of (CallExpression i name params) =
     CallExpression i name params # concat (map nodes_of params)"
| "nodes_of node = [node]"

definition public_fields :: "string list" where
  "public_fields = [''type'', ''name'', ''params'', ''value'', ''body'']"

subsection \<open>Well-formed input and the text it compiles to\<close>

text \<open>
  The inputs the compiler is made for, as a syntax of their own: a program is a
  sequence of expressions, and an expression is a one-digit number literal, a string
  literal between double quotes with no double quote inside, or a call
  \<^verbatim>\<open>(name arg ... arg)\<close> whose name is a non-empty word of letters and whose arguments are
  expressions. White space may stand in front of every expression (the first component
  of each constructor), after the opening paren and before the closing paren of a call,
  and nowhere is it needed: a run of digits is a run of number literals. \<open>source_text\<close>
  is the input text of an expression and \<open>valid\<close> says that its parts are what they
  should be.

  \<open>rendering\<close> is the output text the specification gives for an expression: the digit
  of a number literal and the content of a string literal, between its quotes, are the
  characters of the input, unchanged; a call is its name and the renderings of its
  arguments, separated by a comma and a space, in parentheses. \<open>statement\<close> is the
  output of an expression at top level, where a call is followed by a semicolon.
  \<open>between sep xs\<close> puts \<open>sep\<close> between the texts \<open>xs\<close>.
\<close>

datatype source =
    Digit string char
  | Quoted string string
  | Call string string string "source list" string

fun source_text :: "source \<Rightarrow> string" where
  "source_text (Digit g d) = g @ [d]"
| "source_text (Quoted g c) = g @ [CHR 0x22] @ c @ [CHR 0x22]"
| "source_text (Call g w name args w') =
     g @ ''('' @ w @ name @ concat (map source_text args) @ w' @ '')''"

fun valid :: "source \<Rightarrow> bool" where
  "valid (Digit g d) = (list_all is_space g \<and> is_digit d)"
| "valid (Quoted g c) = (list_all is_space g \<and> CHR 0x22 \<notin> set c)"
| "valid (Call g w name args w') =
     (list_all is_space g \<and> list_all is_space w \<and> name \<noteq> [] \<and> list_all is_letter name \<and>
      list_all valid args \<and> list_all is_space w')"

fun between :: "'a list \<Rightarrow> 'a list list \<Rightarrow> 'a list" where
  "between sep [] = []"
| "between sep (x # xs) = x @ concat (map (\<lambda>y. sep @ y) xs)"

fun rendering :: "source \<Rightarrow> string" where
  "rendering (Digit g d) = [d]"
| "rendering (Quoted g c) = [CHR 0x22] @ c @ [CHR 0x22]"
| "rendering (Call g w name args w') =
     name @ ''('' @ between '', '' (map rendering args) @ '')''"

fun statement :: "source \<Rightarrow> string" where
  "statement (Call g w name args w') = rendering (Call g w name args w') @ '';''"
| "statement e = rendering e"

section \<open>Notions used in the proofs\<close>

text \<open>The \<^verbatim>\<open>_context\<close> fields of the source objects in a state.\<close>

definition contexts :: "tstate \<Rightarrow> oid \<rightharpoonup> addr" where
  "contexts s i = properties s i ''_context''"

text \<open>
  \<open>agrees L xs ys\<close>: the store \<open>ys\<close> has every array of \<open>xs\<close> from address \<open>L\<close> on, with
  the same content.
\<close>

definition agrees :: "nat \<Rightarrow> tobj list list \<Rightarrow> tobj list list \<Rightarrow> bool" where
  "agrees L xs ys \<longleftrightarrow>
     length xs \<le> length ys \<and> (\<forall>b. L \<le> b \<and> b < length xs \<longrightarrow> ys ! b = xs ! b)"

text \<open>
  \<open>built in_call a cs s s'\<close>: what the traversal of the nodes \<open>cs\<close>, below a parent whose
  \<^verbatim>\<open>_context\<close> is the array \<open>a\<close>, makes of the store \<open>s\<close>. One array is created for each
  call; the arrays that were there keep their content, but for \<open>a\<close>, which receives one
  object for each node; the \<^verbatim>\<open>_context\<close> fields of the calls of \<open>cs\<close> are set and no
  other \<^verbatim>\<open>_context\<close> changes; and the objects pushed stand for the images of \<open>cs\<close>, in
  every store that keeps the arrays created here.
\<close>

definition built :: "bool \<Rightarrow> addr \<Rightarrow> node list \<Rightarrow> tstate \<Rightarrow> tstate \<Rightarrow> bool" where
  "built in_call a cs s s' \<longleftrightarrow>
     length (arrays s') = length (arrays s) + length (concat (map call_oids cs)) \<and>
     (\<forall>b < length (arrays s). b \<noteq> a \<longrightarrow> arrays s' ! b = arrays s ! b) \<and>
     (\<forall>i. i \<notin> set (concat (map call_oids cs)) \<longrightarrow> contexts s' i = contexts s i) \<and>
     (\<forall>i \<in> set (concat (map call_oids cs)). contexts s' i \<noteq> None) \<and>
     (\<exists>hs. arrays s' ! a = arrays s ! a @ hs \<and>
        (\<forall>arrs fuel. length (concat (map call_oids cs)) \<le> fuel \<longrightarrow>
           agrees (length (arrays s)) (arrays s') arrs \<longrightarrow>
           map (tree_of fuel arrs) hs = map (\<lambda>c. Some (lowered in_call c)) cs))"

text \<open>The store after \<^verbatim>\<open>enter\<close> of a call \<open>i\<close> has pushed the object \<open>x\<close> to the array \<open>a\<close>.\<close>

definition entered :: "oid \<Rightarrow> addr \<Rightarrow> tobj \<Rightarrow> tstate \<Rightarrow> tstate" where
  "entered i a x s =
     push a x (assign i ''_context'' (length (arrays s)) (s\<lparr>arrays := arrays s @ [[]]\<rparr>))"

text \<open>
  \<open>clean s\<close>: no object in an array of the store carries a \<^verbatim>\<open>_context\<close>. \<open>frame s s'\<close>:
  from \<open>s\<close> to \<open>s'\<close> no field other than \<^verbatim>\<open>_context\<close> of a source object was assigned
  to, and a clean store stayed clean.
\<close>

definition clean :: "tstate \<Rightarrow> bool" where
  "clean s = list_all (list_all (\<lambda>x. \<not> carries_context x)) (arrays s)"

definition frame :: "tstate \<Rightarrow> tstate \<Rightarrow> bool" where
  "frame s s' \<longleftrightarrow>
     (\<forall>i f. f \<noteq> ''_context'' \<longrightarrow> properties s' i f = properties s i f) \<and>
     (clean s \<longrightarrow> clean s')"

text \<open>The texts that a tree carries: the values of its literals and the names of its calls.\<close>

fun texts :: "node \<Rightarrow> string list" where
  "texts (Program i body) = concat (map texts body)"
| "texts (CallExpression i name params) = name # concat (map texts params)"
| "texts (NumberLiteral i v) = [v]"
| "texts (StringLiteral i v) = [v]"
| "texts Undefined = []"

text \<open>
  For the parser: a token on which \<^verbatim>\<open>walk\<close> returns \<^verbatim>\<open>undefined\<close>; a closing paren;
  \<open>covers tokens a b T\<close>, the texts \<open>T\<close> hold the value of every \<^verbatim>\<open>number\<close> and
  \<^verbatim>\<open>string\<close> token from \<open>a\<close> up to \<open>b\<close>; \<open>parsed\<close>, what a run of the parser from the
  cursor \<open>cur\<close> to \<open>cur'\<close> that created the objects \<open>fresh\<close> up to \<open>fresh'\<close> has built; and
  \<open>walk_spec\<close>, what a result \<open>y\<close> of \<^verbatim>\<open>walk\<close> is, on any engine: on a token it does not
  consume \<^verbatim>\<open>walk\<close> returns \<^verbatim>\<open>undefined\<close> and leaves the cursor, and its loop, which
  then can only end with an error, returns no node.
\<close>

definition entry_stuck :: "token list \<Rightarrow> nat \<Rightarrow> bool" where
  "entry_stuck tokens cur \<longleftrightarrow>
     cur < length tokens \<and>
     (ttype (tokens ! cur) = Name \<or>
      (ttype (tokens ! cur) = Paren \<and> tvalue (tokens ! cur) \<noteq> ''(''))"

definition closing :: "token list \<Rightarrow> nat \<Rightarrow> bool" where
  "closing tokens cur \<longleftrightarrow>
     cur < length tokens \<and> ttype (tokens ! cur) = Paren \<and> tvalue (tokens ! cur) = '')''"

definition covers :: "token list \<Rightarrow> nat \<Rightarrow> nat \<Rightarrow> string list \<Rightarrow> bool" where
  "covers tokens a b T \<longleftrightarrow>
     (\<forall>k. a \<le> k \<and> k < b \<longrightarrow> ttype (tokens ! k) = Number \<or> ttype (tokens ! k) = String \<longrightarrow>
          tvalue (tokens ! k) \<in> set T)"

definition parsed :: "token list \<Rightarrow> nat \<Rightarrow> oid \<Rightarrow> node list \<Rightarrow> nat \<Rightarrow> oid \<Rightarrow> bool" where
  "parsed tokens cur fresh ns cur' fresh' \<longleftrightarrow>
     list_all expr ns \<and> distinct (concat (map call_oids ns)) \<and>
     set (concat (map call_oids ns)) \<subseteq> {fresh..<fresh'} \<and> fresh \<le> fresh' \<and>
     cur \<le> cur' \<and> cur' \<le> length tokens \<and> covers tokens cur cur' (concat (map texts ns))"

definition walk_spec ::
  "token list \<Rightarrow> (oid \<times> string \<times> node list) option \<Rightarrow> nat \<Rightarrow> oid \<Rightarrow>
     (error + node \<times> nat \<times> oid) \<Rightarrow> bool" where
  "walk_spec tokens pending cur fresh y \<longleftrightarrow>
     (case pending of
        None \<Rightarrow>
          (if entry_stuck tokens cur then y = Inr (Undefined, cur, fresh)
           else (\<forall>n cur' fresh'. y = Inr (n, cur', fresh') \<longrightarrow>
                   parsed tokens cur fresh [n] cur' fresh' \<and> cur < cur'))
      | Some (i, name, params) \<Rightarrow>
          (entry_stuck tokens cur \<and> \<not> closing tokens cur \<longrightarrow> (\<exists>e. y = Inl e)) \<and>
          (\<forall>n cur' fresh'. y = Inr (n, cur', fresh') \<longrightarrow>
             (\<exists>ns. n = CallExpression i name (params @ ns) \<and>
                   parsed tokens cur fresh ns cur' fresh' \<and> cur < cur')))"

text \<open>
  The tokens of a well-formed expression, and its target tree: what the tokenizer makes
  of \<open>source_text\<close>, and what the parser and the transformer make of the tokens.
\<close>

fun tokens_of :: "source \<Rightarrow> token list" where
  "tokens_of (Digit g d) = [\<lparr>ttype = Number, tvalue = [d]\<rparr>]"
| "tokens_of (Quoted g c) = [\<lparr>ttype = String, tvalue = c\<rparr>]"
| "tokens_of (Call g w name args w') =
     [\<lparr>ttype = Paren, tvalue = ''(''\<rparr>, \<lparr>ttype = Name, tvalue = name\<rparr>] @
     concat (map tokens_of args) @ [\<lparr>ttype = Paren, tvalue = '')''\<rparr>]"

fun target :: "bool \<Rightarrow> source \<Rightarrow> tnode" where
  "target in_call (Digit g d) = TNumberLiteral [d]"
| "target in_call (Quoted g c) = TStringLiteral c"
| "target in_call (Call g w name args w') =
     (if in_call
      then TCallExpression (TIdentifier name) (map (target True) args)
      else TExpressionStatement (TCallExpression (TIdentifier name) (map (target True) args)))"

section \<open>Stepping the loops\<close>

text \<open>
  The defining equations of the partial functions, one case at a time, in a form the
  simplifier can use without unfolding a loop that does not end.
\<close>

lemma char_at_simps [simp]:
  "i < length input \<Longrightarrow> char_at input i = Some (input ! i)"
  "length input \<le> i \<Longrightarrow> char_at input i = None"
  by (simp_all add: char_at_def)

lemma tests_Some [simp]:
  "WS_test (Some c) = is_space c"
  "NUMBER_test (Some c) = is_digit c"
  "LETTER_test (Some c) = is_letter c"
  by (simp_all add: WS_test_def NUMBER_test_def LETTER_test_def)

lemma unbounded_simps [simp]:
  "append_string unbounded v w = Inr (v @ w)"
  "array_push unbounded xs x = Inr (xs @ [x])"
  by (simp_all add: append_string_def array_push_def unbounded_def)

lemma is_digit_not_other:
  "is_digit c \<Longrightarrow> c \<noteq> CHR ''('' \<and> c \<noteq> CHR '')'' \<and> \<not> is_space c"
  by (auto simp: is_digit_def is_space_def)

lemma tokenizer_loop_done:
  "length input \<le> current \<Longrightarrow> tokenizer_loop_on eng input current tokens = Some (Inr tokens)"
  by (subst tokenizer_loop_on.simps) simp

lemma tokenizer_loop_digit:
  "current < length input \<Longrightarrow> is_digit (input ! current) \<Longrightarrow>
   tokenizer_loop input current tokens =
     tokenizer_loop input (current + 1)
       (tokens @ [\<lparr>ttype = Number, tvalue = [input ! current]\<rparr>])"
  by (subst tokenizer_loop_on.simps) (simp add: is_digit_not_other)

lemma tokenizer_loop_unknown:
  "current < length input \<Longrightarrow> unknown_char (input ! current) \<Longrightarrow>
   tokenizer_loop input current tokens =
     Some (Inl (SyntaxError (''I dont know what this character is: '' @ [input ! current])))"
  by (subst tokenizer_loop_on.simps) (simp add: unknown_char_def)

lemma walk_end:
  "length tokens \<le> current \<Longrightarrow>
   walk_on eng tokens pending current fresh = Some (Inl (UndefinedAccess ''type''))"
  by (subst walk_on.simps) (simp add: token_at_def split: option.splits)

lemma walk_number:
  "current < length tokens \<Longrightarrow> ttype (tokens ! current) = Number \<Longrightarrow>
   walk_on eng tokens None current fresh =
     Some (Inr (NumberLiteral fresh (tvalue (tokens ! current)), current + 1, fresh + 1))"
  by (subst walk_on.simps) (simp add: token_at_def)

lemma walk_string:
  "current < length tokens \<Longrightarrow> ttype (tokens ! current) = String \<Longrightarrow>
   walk_on eng tokens None current fresh =
     Some (Inr (StringLiteral fresh (tvalue (tokens ! current)), current + 1, fresh + 1))"
  by (subst walk_on.simps) (simp add: token_at_def)

lemma walk_open:
  "current < length tokens \<Longrightarrow> ttype (tokens ! current) = Paren \<Longrightarrow>
   tvalue (tokens ! current) = ''('' \<Longrightarrow>
   walk_on eng tokens None current fresh =
     (if current + 1 < length tokens
      then walk_on eng tokens (Some (fresh, tvalue (tokens ! (current + 1)), []))
             (current + 2) (fresh + 1)
      else Some (Inl (UndefinedAccess ''value'')))"
  by (subst walk_on.simps) (simp add: token_at_def)

lemma walk_stuck:
  "current < length tokens \<Longrightarrow>
   ttype (tokens ! current) = Name \<or>
     (ttype (tokens ! current) = Paren \<and> tvalue (tokens ! current) \<noteq> ''('') \<Longrightarrow>
   walk_on eng tokens None current fresh = Some (Inr (Undefined, current, fresh))"
  by (subst walk_on.simps) (auto simp: token_at_def)

lemma walk_close:
  "current < length tokens \<Longrightarrow> ttype (tokens ! current) = Paren \<Longrightarrow>
   tvalue (tokens ! current) = '')'' \<Longrightarrow>
   walk_on eng tokens (Some (i, name, params)) current fresh =
     Some (Inr (CallExpression i name params, current + 1, fresh))"
  by (subst walk_on.simps) (simp add: token_at_def)

lemma walk_param:
  "current < length tokens \<Longrightarrow>
   ttype (tokens ! current) \<noteq> Paren \<or> tvalue (tokens ! current) \<noteq> '')'' \<Longrightarrow>
   walk_on eng tokens (Some (i, name, params)) current fresh =
     walk_on eng tokens None current fresh \<bind>
       (\<lambda>r. case r of
          Inl e \<Rightarrow> Some (Inl e)
        | Inr (n, current', fresh') \<Rightarrow>
            (case array_push eng params n of
               Inl e \<Rightarrow> Some (Inl e)
             | Inr params' \<Rightarrow> walk_on eng tokens (Some (i, name, params')) current' fresh'))"
  by (subst walk_on.simps) (auto simp: token_at_def)

lemma parser_loop_step:
  "current < length tokens \<Longrightarrow>
   parser_loop_on eng tokens current fresh body =
     walk_on eng tokens None current fresh \<bind>
       (\<lambda>r. case r of
          Inl e \<Rightarrow> Some (Inl e)
        | Inr (n, current', fresh') \<Rightarrow>
            (case array_push eng body n of
               Inl e \<Rightarrow> Some (Inl e)
             | Inr body' \<Rightarrow> parser_loop_on eng tokens current' fresh' body'))"
  by (subst parser_loop_on.simps) simp

lemma parser_loop_done:
  "length tokens \<le> current \<Longrightarrow> parser_loop_on eng tokens current fresh body = Some (Inr body)"
  by (subst parser_loop_on.simps) simp

section \<open>Runs that do not return without limits\<close>

text \<open>
  Once the cursor has left the input, \<^verbatim>\<open>input[++current]\<close> is \<^verbatim>\<open>undefined\<close> for ever.
  The letter loop goes on, because \<^verbatim>\<open>/[a-z]/i\<close> matches the string \<^verbatim>\<open>undefined\<close>; the
  string loop goes on, because \<^verbatim>\<open>undefined\<close> is not the closing quote. When \<^verbatim>\<open>walk\<close>
  returns \<^verbatim>\<open>undefined\<close> it has not moved the cursor, so the top-level loop of the parser
  calls it again on the same token. On the engine without limits none of these runs
  returns.
\<close>

lemma string_loop_runs_off:
  assumes "string_loop_on eng input current v ch = Some y"
  shows "eng = unbounded \<longrightarrow> ch = char_at input current \<longrightarrow>
         (\<forall>i. current \<le> i \<and> i < length input \<longrightarrow> input ! i \<noteq> CHR 0x22) \<longrightarrow> False"
proof (rule string_loop_on.raw_induct [OF _ assms])
  fix f eng input current v ch y
  assume IH: "\<And>eng input current v ch y. f eng input current v ch = Some y \<Longrightarrow>
                eng = unbounded \<longrightarrow> ch = char_at input current \<longrightarrow>
                (\<forall>i. current \<le> i \<and> i < length input \<longrightarrow> input ! i \<noteq> CHR 0x22) \<longrightarrow> False"
    and step: "(if ch \<noteq> Some (CHR 0x22) then
        (case append_string eng v (to_string ch) of
           Inl e \<Rightarrow> Some (Inl e)
         | Inr val' \<Rightarrow> f eng input (current + 1) val' (char_at input (current + 1)))
      else Some (Inr (current, v))) = Some y"
  show "eng = unbounded \<longrightarrow> ch = char_at input current \<longrightarrow>
         (\<forall>i. current \<le> i \<and> i < length input \<longrightarrow> input ! i \<noteq> CHR 0x22) \<longrightarrow> False"
  proof (intro impI)
    assume eng: "eng = unbounded" and ch: "ch = char_at input current"
      and all: "\<forall>i. current \<le> i \<and> i < length input \<longrightarrow> input ! i \<noteq> CHR 0x22"
    have "ch \<noteq> Some (CHR 0x22)"
      using ch all by (cases "current < length input") auto
    with step eng
    have "f unbounded input (current + 1) (v @ to_string ch) (char_at input (current + 1)) = Some y"
      by simp
    from IH [OF this] all show False by auto
  qed
qed

lemma string_loop_None:
  "\<forall>i. current \<le> i \<and> i < length input \<longrightarrow> input ! i \<noteq> CHR 0x22 \<Longrightarrow>
   string_loop input current v (char_at input current) = None"
  using string_loop_runs_off [of unbounded input current v "char_at input current"]
  by (cases "string_loop input current v (char_at input current)") auto

lemma name_loop_runs_off:
  assumes "name_loop_on eng input current v ch = Some y"
  shows "eng = unbounded \<longrightarrow> ch = char_at input current \<longrightarrow>
         (\<forall>i. current \<le> i \<and> i < length input \<longrightarrow> is_letter (input ! i)) \<longrightarrow> False"
proof (rule name_loop_on.raw_induct [OF _ assms])
  fix f eng input current v ch y
  assume IH: "\<And>eng input current v ch y. f eng input current v ch = Some y \<Longrightarrow>
                eng = unbounded \<longrightarrow> ch = char_at input current \<longrightarrow>
                (\<forall>i. current \<le> i \<and> i < length input \<longrightarrow> is_letter (input ! i)) \<longrightarrow> False"
    and step: "(if LETTER_test ch then
        (case append_string eng v (to_string ch) of
           Inl e \<Rightarrow> Some (Inl e)
         | Inr val' \<Rightarrow> f eng input (current + 1) val' (char_at input (current + 1)))
      else Some (Inr (current, v))) = Some y"
  show "eng = unbounded \<longrightarrow> ch = char_at input current \<longrightarrow>
         (\<forall>i. current \<le> i \<and> i < length input \<longrightarrow> is_letter (input ! i)) \<longrightarrow> False"
  proof (intro impI)
    assume eng: "eng = unbounded" and ch: "ch = char_at input current"
      and all: "\<forall>i. current \<le> i \<and> i < length input \<longrightarrow> is_letter (input ! i)"
    have "LETTER_test ch"
      using ch all
      by (cases "current < length input") (auto simp: LETTER_test_def is_letter_def)
    with step eng
    have "f unbounded input (current + 1) (v @ to_string ch) (char_at input (current + 1)) = Some y"
      by simp
    from IH [OF this] all show False by auto
  qed
qed

lemma name_loop_None:
  "\<forall>i. current \<le> i \<and> i < length input \<longrightarrow> is_letter (input ! i) \<Longrightarrow>
   name_loop input current v (char_at input current) = None"
  using name_loop_runs_off [of unbounded input current v "char_at input current"]
  by (cases "name_loop input current v (char_at input current)") auto

lemma parser_loop_stuck:
  assumes "parser_loop_on eng tokens current fresh body = Some y"
  shows "eng = unbounded \<longrightarrow> current < length tokens \<longrightarrow>
         walk tokens None current fresh = Some (Inr (Undefined, current, fresh)) \<longrightarrow> False"
proof (rule parser_loop_on.raw_induct [OF _ assms])
  fix f eng tokens current fresh body y
  assume IH: "\<And>eng tokens current fresh body y. f eng tokens current fresh body = Some y \<Longrightarrow>
                eng = unbounded \<longrightarrow> current < length tokens \<longrightarrow>
                walk tokens None current fresh = Some (Inr (Undefined, current, fresh)) \<longrightarrow>
                False"
    and step: "(if current < length tokens then
        walk_on eng tokens None current fresh \<bind>
          (\<lambda>r. case r of
             Inl e \<Rightarrow> Some (Inl e)
           | Inr (n, current', fresh') \<Rightarrow>
               (case array_push eng body n of
                  Inl e \<Rightarrow> Some (Inl e)
                | Inr body' \<Rightarrow> f eng tokens current' fresh' body'))
      else Some (Inr body)) = Some y"
  show "eng = unbounded \<longrightarrow> current < length tokens \<longrightarrow>
        walk tokens None current fresh = Some (Inr (Undefined, current, fresh)) \<longrightarrow> False"
  proof (intro impI)
    assume a: "eng = unbounded" "current < length tokens"
      "walk tokens None current fresh = Some (Inr (Undefined, current, fresh))"
    with step have "f unbounded tokens current fresh (body @ [Undefined]) = Some y" by simp
    from IH [OF this] a show False by simp
  qed
qed

lemma without_limits:
  "tokenizer ''add'' = None \<and> parser [\<lparr>ttype = Paren, tvalue = '')''\<rparr>] = None"
proof
  have "name_loop ''add'' 0 [] (char_at ''add'' 0) = None"
    by (rule name_loop_None) (auto simp: is_letter_def nth_Cons split: nat.splits)
  then show "tokenizer ''add'' = None"
    unfolding tokenizer_on_def
    by (subst tokenizer_loop_on.simps) (simp add: is_space_def is_digit_def is_letter_def)
next
  let ?tokens = "[\<lparr>ttype = Paren, tvalue = '')''\<rparr>]"
  have w: "walk ?tokens None 0 1 = Some (Inr (Undefined, 0, 1))"
    by (rule walk_stuck) simp_all
  have "parser_loop ?tokens 0 1 [] = None"
    using parser_loop_stuck [of unbounded ?tokens 0 1 "[]"] w
    by (cases "parser_loop ?tokens 0 1 []") auto
  then show "parser ?tokens = None" by (simp add: parser_on_def)
qed

section \<open>The tokenizer's results\<close>

lemma tokenizer_loop_digits:
  "current + n \<le> length input \<Longrightarrow> \<forall>i<n. is_digit (input ! (current + i)) \<Longrightarrow>
   tokenizer_loop input current tokens =
     tokenizer_loop input (current + n)
       (tokens @ map (\<lambda>i. \<lparr>ttype = Number, tvalue = [input ! (current + i)]\<rparr>) [0..<n])"
proof (induction n)
  case 0
  then show ?case by simp
next
  case (Suc n)
  then have "tokenizer_loop input current tokens =
     tokenizer_loop input (current + n)
       (tokens @ map (\<lambda>i. \<lparr>ttype = Number, tvalue = [input ! (current + i)]\<rparr>) [0..<n])"
    by simp
  also have "\<dots> = tokenizer_loop input (current + n + 1)
       ((tokens @ map (\<lambda>i. \<lparr>ttype = Number, tvalue = [input ! (current + i)]\<rparr>) [0..<n])
          @ [\<lparr>ttype = Number, tvalue = [input ! (current + n)]\<rparr>])"
    using Suc.prems by (intro tokenizer_loop_digit) auto
  finally show ?case by simp
qed

lemma array_push_Inr:
  "array_push eng xs x = Inr ys \<Longrightarrow> ys = xs @ [x]"
  by (auto simp: array_push_def split: option.splits if_splits)

lemma append_string_Inr:
  "append_string eng v w = Inr u \<Longrightarrow> u = v @ w"
  by (auto simp: append_string_def split: option.splits if_splits)

lemma tokenizer_loop_numbers:
  assumes "tokenizer_loop_on eng input current tokens = Some r"
  shows "list_all one_digit tokens \<longrightarrow> (\<forall>res. r = Inr res \<longrightarrow> list_all one_digit res)"
proof (rule tokenizer_loop_on.raw_induct [OF _ assms])
  fix f eng input current tokens r
  assume IH: "\<And>eng input current tokens r. f eng input current tokens = Some r \<Longrightarrow>
                list_all one_digit tokens \<longrightarrow> (\<forall>res. r = Inr res \<longrightarrow> list_all one_digit res)"
    and step: "(if current < length input then
        (let ch = char_at input current in
         if ch = Some CHR ''('' \<or> ch = Some CHR '')'' then
           (case array_push eng tokens \<lparr>ttype = Paren, tvalue = to_string ch\<rparr> of
              Inl e \<Rightarrow> Some (Inl e)
            | Inr tokens' \<Rightarrow> f eng input (current + 1) tokens')
         else if WS_test ch then
           f eng input (current + 1) tokens
         else if NUMBER_test ch then
           (case array_push eng tokens \<lparr>ttype = Number, tvalue = to_string ch\<rparr> of
              Inl e \<Rightarrow> Some (Inl e)
            | Inr tokens' \<Rightarrow> f eng input (current + 1) tokens')
         else if ch = Some (CHR 0x22) then
           string_loop_on eng input (current + 1) [] (char_at input (current + 1)) \<bind>
             (\<lambda>r. case r of
                Inl e \<Rightarrow> Some (Inl e)
              | Inr (current', val) \<Rightarrow>
                  (case array_push eng tokens \<lparr>ttype = String, tvalue = val\<rparr> of
                     Inl e \<Rightarrow> Some (Inl e)
                   | Inr tokens' \<Rightarrow> f eng input (current' + 1) tokens'))
         else if LETTER_test ch then
           name_loop_on eng input current [] ch \<bind>
             (\<lambda>r. case r of
                Inl e \<Rightarrow> Some (Inl e)
              | Inr (current', val) \<Rightarrow>
                  (case array_push eng tokens \<lparr>ttype = Name, tvalue = val\<rparr> of
                     Inl e \<Rightarrow> Some (Inl e)
                   | Inr tokens' \<Rightarrow> f eng input current' tokens'))
         else
           (case append_string eng ''I dont know what this character is: '' (to_string ch) of
              Inl e \<Rightarrow> Some (Inl e)
            | Inr message \<Rightarrow> Some (Inl (SyntaxError message))))
      else Some (Inr tokens)) = Some r"
  show "list_all one_digit tokens \<longrightarrow> (\<forall>res. r = Inr res \<longrightarrow> list_all one_digit res)"
  proof (intro impI allI)
    fix res
    assume ok: "list_all one_digit tokens" and r: "r = Inr res"
    show "list_all one_digit res"
    proof (cases "current < length input")
      case False
      with step r ok show ?thesis by simp
    next
      case True
      then have ch: "char_at input current = Some (input ! current)" by simp
      from step True ch r show ?thesis
        using IH ok
        by (auto simp: one_digit_def Let_def
              split: if_splits Option.bind_splits prod.splits sum.splits
              dest!: array_push_Inr)
    qed
  qed
qed

lemma string_loop_reads:
  "current + k < length input \<Longrightarrow> \<forall>j<k. input ! (current + j) \<noteq> CHR 0x22 \<Longrightarrow>
   input ! (current + k) = CHR 0x22 \<Longrightarrow>
   string_loop input current acc (char_at input current) =
     Some (Inr (current + k, acc @ take k (drop current input)))"
proof (induction k arbitrary: current acc)
  case 0
  then show ?case by (subst string_loop_on.simps) simp
next
  case (Suc k)
  have c: "current < length input" "input ! current \<noteq> CHR 0x22"
    using Suc.prems(1) Suc.prems(2) [rule_format, of 0] by simp_all
  have "string_loop input (current + 1) (acc @ [input ! current]) (char_at input (current + 1)) =
          Some (Inr (current + 1 + k, (acc @ [input ! current]) @ take k (drop (current + 1) input)))"
  proof (rule Suc.IH)
    show "current + 1 + k < length input" using Suc.prems(1) by simp
    show "\<forall>j<k. input ! (current + 1 + j) \<noteq> CHR 0x22"
      using Suc.prems(2) by (auto dest: spec [where x = "Suc j" for j])
    show "input ! (current + 1 + k) = CHR 0x22" using Suc.prems(3) by simp
  qed
  moreover have "take (Suc k) (drop current input) = input ! current # take k (drop (current + 1) input)"
    using c(1) by (simp add: take_Suc_conv_app_nth drop_Suc Cons_nth_drop_Suc [symmetric] flip: drop_drop)
  ultimately show ?case
    using c by (subst string_loop_on.simps) simp
qed

lemma name_loop_reads:
  "current + k < length input \<Longrightarrow> \<forall>j<k. is_letter (input ! (current + j)) \<Longrightarrow>
   \<not> is_letter (input ! (current + k)) \<Longrightarrow>
   name_loop input current acc (char_at input current) =
     Some (Inr (current + k, acc @ take k (drop current input)))"
proof (induction k arbitrary: current acc)
  case 0
  then show ?case by (subst name_loop_on.simps) simp
next
  case (Suc k)
  have c: "current < length input" "is_letter (input ! current)"
    using Suc.prems(1) Suc.prems(2) [rule_format, of 0] by simp_all
  have "name_loop input (current + 1) (acc @ [input ! current]) (char_at input (current + 1)) =
          Some (Inr (current + 1 + k, (acc @ [input ! current]) @ take k (drop (current + 1) input)))"
  proof (rule Suc.IH)
    show "current + 1 + k < length input" using Suc.prems(1) by simp
    show "\<forall>j<k. is_letter (input ! (current + 1 + j))"
      using Suc.prems(2) by (auto dest: spec [where x = "Suc j" for j])
    show "\<not> is_letter (input ! (current + 1 + k))" using Suc.prems(3) by simp
  qed
  moreover have "take (Suc k) (drop current input) = input ! current # take k (drop (current + 1) input)"
    using c(1) by (simp add: take_Suc_conv_app_nth drop_Suc Cons_nth_drop_Suc [symmetric] flip: drop_drop)
  ultimately show ?case
    using c by (subst name_loop_on.simps) simp
qed

lemma tokenizer_loop_quote:
  "current < length input \<Longrightarrow> input ! current = CHR 0x22 \<Longrightarrow>
   string_loop input (current + 1) [] (char_at input (current + 1)) = Some (Inr (current', v)) \<Longrightarrow>
   tokenizer_loop input current tokens =
     tokenizer_loop input (current' + 1) (tokens @ [\<lparr>ttype = String, tvalue = v\<rparr>])"
  by (subst tokenizer_loop_on.simps) (simp add: is_space_def is_digit_def)

lemma tokenizer_quoted:
  assumes "CHR 0x22 \<notin> set v"
  shows "tokenizer ([CHR 0x22] @ v @ [CHR 0x22]) = Some (Inr [\<lparr>ttype = String, tvalue = v\<rparr>])"
proof -
  let ?input = "[CHR 0x22] @ v @ [CHR 0x22]"
  have "string_loop ?input (0 + 1) [] (char_at ?input (0 + 1)) =
          Some (Inr (0 + 1 + length v, [] @ take (length v) (drop (0 + 1) ?input)))"
  proof (rule string_loop_reads)
    show "\<forall>j<length v. ?input ! (0 + 1 + j) \<noteq> CHR 0x22"
      using assms by (auto simp: nth_append dest: nth_mem)
  qed (simp_all add: nth_append)
  then have "string_loop ?input (0 + 1) [] (char_at ?input (0 + 1)) = Some (Inr (Suc (length v), v))"
    by simp
  then have "tokenizer_loop ?input 0 [] =
       tokenizer_loop ?input (Suc (length v) + 1) ([] @ [\<lparr>ttype = String, tvalue = v\<rparr>])"
    by (intro tokenizer_loop_quote) simp_all
  then show ?thesis
    by (simp add: tokenizer_on_def tokenizer_loop_done)
qed

section \<open>The trees the parser returns\<close>

lemma parsed_close:
  "closing tokens cur \<Longrightarrow> parsed tokens cur fresh [] (cur + 1) fresh"
  by (auto simp: parsed_def closing_def covers_def less_Suc_eq)

lemma parsed_number:
  "cur < length tokens \<Longrightarrow> ttype (tokens ! cur) = Number \<Longrightarrow>
   parsed tokens cur fresh [NumberLiteral fresh (tvalue (tokens ! cur))] (cur + 1) (fresh + 1)"
  by (auto simp: parsed_def covers_def less_Suc_eq)

lemma parsed_string:
  "cur < length tokens \<Longrightarrow> ttype (tokens ! cur) = String \<Longrightarrow>
   parsed tokens cur fresh [StringLiteral fresh (tvalue (tokens ! cur))] (cur + 1) (fresh + 1)"
  by (auto simp: parsed_def covers_def less_Suc_eq)

lemma covers_join: "covers tokens a b T \<Longrightarrow> covers tokens b c T' \<Longrightarrow> covers tokens a c (T @ T')"
  unfolding covers_def
proof (intro allI impI)
  fix k
  assume 1: "\<forall>k. a \<le> k \<and> k < b \<longrightarrow> ttype (tokens ! k) = Number \<or> ttype (tokens ! k) = String \<longrightarrow> tvalue (tokens ! k) \<in> set T"
    and 2: "\<forall>k. b \<le> k \<and> k < c \<longrightarrow> ttype (tokens ! k) = Number \<or> ttype (tokens ! k) = String \<longrightarrow> tvalue (tokens ! k) \<in> set T'"
    and k: "a \<le> k \<and> k < c" and t: "ttype (tokens ! k) = Number \<or> ttype (tokens ! k) = String"
  show "tvalue (tokens ! k) \<in> set (T @ T')"
  proof (cases "k < b")
    case True
    with 1 k t show ?thesis by auto
  next
    case False
    with 2 k t show ?thesis by auto
  qed
qed

lemma parsedD:
  assumes "parsed tokens cur fresh ns cur' fresh'"
  shows "list_all expr ns" "distinct (concat (map call_oids ns))"
    "\<And>x. x \<in> set (concat (map call_oids ns)) \<Longrightarrow> fresh \<le> x \<and> x < fresh'" "fresh \<le> fresh'"
    "cur \<le> cur'" "cur' \<le> length tokens" "covers tokens cur cur' (concat (map texts ns))"
  using assms unfolding parsed_def by (simp_all add: subset_iff)

lemma parsedI:
  assumes "list_all expr ns" "distinct (concat (map call_oids ns))"
    "\<And>x. x \<in> set (concat (map call_oids ns)) \<Longrightarrow> fresh \<le> x \<and> x < fresh'" "fresh \<le> fresh'"
    "cur \<le> cur'" "cur' \<le> length tokens" "covers tokens cur cur' (concat (map texts ns))"
  shows "parsed tokens cur fresh ns cur' fresh'"
  using assms unfolding parsed_def by (simp add: subset_iff)

lemma parsed_append:
  assumes 1: "parsed tokens a f xs b f1" and 2: "parsed tokens b f1 ys c f2"
  shows "parsed tokens a f (xs @ ys) c f2"
proof (rule parsedI)
  show "list_all expr (xs @ ys)" using parsedD(1) [OF 1] parsedD(1) [OF 2] by simp
  have "x \<noteq> y" if "x \<in> set (concat (map call_oids xs))" "y \<in> set (concat (map call_oids ys))" for x y
    using parsedD(3) [OF 1 that(1)] parsedD(3) [OF 2 that(2)] by simp
  then have "set (concat (map call_oids xs)) \<inter> set (concat (map call_oids ys)) = {}"
    by blast
  then show "distinct (concat (map call_oids (xs @ ys)))"
    using parsedD(2) [OF 1] parsedD(2) [OF 2] by simp
  show "f \<le> x \<and> x < f2" if "x \<in> set (concat (map call_oids (xs @ ys)))" for x
  proof -
    from that consider "x \<in> set (concat (map call_oids xs))" | "x \<in> set (concat (map call_oids ys))"
      by auto
    then show ?thesis
    proof cases
      case 1 then show ?thesis using parsedD(3) [OF \<open>parsed tokens a f xs b f1\<close> 1] parsedD(4) [OF 2] by simp
    next
      case 2 then show ?thesis using parsedD(3) [OF \<open>parsed tokens b f1 ys c f2\<close> 2] parsedD(4) [OF 1] by simp
    qed
  qed
  show "f \<le> f2" using parsedD(4) [OF 1] parsedD(4) [OF 2] by simp
  show "a \<le> c" using parsedD(5) [OF 1] parsedD(5) [OF 2] by simp
  show "c \<le> length tokens" by (rule parsedD(6) [OF 2])
  show "covers tokens a c (concat (map texts (xs @ ys)))"
    using covers_join [OF parsedD(7) [OF 1] parsedD(7) [OF 2]] by simp
qed

lemma parsed_open:
  assumes "cur < length tokens" "ttype (tokens ! cur) = Paren"
    and 3: "parsed tokens (cur + 2) (fresh + 1) ns cur' fresh'"
  shows "parsed tokens cur fresh [CallExpression fresh (tvalue (tokens ! (cur + 1))) ns] cur' fresh'"
proof (rule parsedI)
  show "list_all expr [CallExpression fresh (tvalue (tokens ! (cur + 1))) ns]"
    using parsedD(1) [OF 3] by simp
  have "fresh \<notin> set (concat (map call_oids ns))"
    using parsedD(3) [OF 3, of fresh] by auto
  then show "distinct (concat (map call_oids [CallExpression fresh (tvalue (tokens ! (cur + 1))) ns]))"
    using parsedD(2) [OF 3] by simp
  show "fresh \<le> x \<and> x < fresh'"
    if "x \<in> set (concat (map call_oids [CallExpression fresh (tvalue (tokens ! (cur + 1))) ns]))" for x
  proof (cases "x = fresh")
    case True
    then show ?thesis using parsedD(4) [OF 3] by simp
  next
    case False
    with that have "x \<in> set (concat (map call_oids ns))" by simp
    from parsedD(3) [OF 3 this] show ?thesis by simp
  qed
  show "fresh \<le> fresh'" using parsedD(4) [OF 3] by simp
  show "cur \<le> cur'" using parsedD(5) [OF 3] by simp
  show "cur' \<le> length tokens" by (rule parsedD(6) [OF 3])
  show "covers tokens cur cur' (concat (map texts [CallExpression fresh (tvalue (tokens ! (cur + 1))) ns]))"
    unfolding covers_def
  proof (intro allI impI)
    fix k assume k: "cur \<le> k \<and> k < cur'" and t: "ttype (tokens ! k) = Number \<or> ttype (tokens ! k) = String"
    consider "k = cur" | "k = cur + 1" | "cur + 2 \<le> k" using k by linarith
    then show "tvalue (tokens ! k) \<in> set (concat (map texts [CallExpression fresh (tvalue (tokens ! (cur + 1))) ns]))"
    proof cases
      case 1 with t assms(2) show ?thesis by simp
    next
      case 2 then show ?thesis by simp
    next
      case 3
      have "tvalue (tokens ! k) \<in> set (concat (map texts ns))"
        using parsedD(7) [OF \<open>parsed tokens (cur + 2) (fresh + 1) ns cur' fresh'\<close>] k t 3
        unfolding covers_def by blast
      then show ?thesis by simp
    qed
  qed
qed

lemma walk_spec_entry:
  "walk_spec tokens None cur fresh y \<Longrightarrow> entry_stuck tokens cur \<Longrightarrow> y = Inr (Undefined, cur, fresh)"
  "walk_spec tokens None cur fresh (Inr (n, cur', fresh')) \<Longrightarrow> \<not> entry_stuck tokens cur \<Longrightarrow>
     parsed tokens cur fresh [n] cur' fresh' \<and> cur < cur'"
  by (simp_all add: walk_spec_def)

lemma walk_spec_loop:
  "walk_spec tokens (Some (i, name, params)) cur fresh y \<Longrightarrow> entry_stuck tokens cur \<Longrightarrow>
     \<not> closing tokens cur \<Longrightarrow> \<exists>e. y = Inl e"
  "walk_spec tokens (Some (i, name, params)) cur fresh (Inr (n, cur', fresh')) \<Longrightarrow>
     \<exists>ns. n = CallExpression i name (params @ ns) \<and> parsed tokens cur fresh ns cur' fresh' \<and> cur < cur'"
  by (simp_all add: walk_spec_def)

lemma walk_spec_holds:
  assumes "walk_on eng tokens pending current fresh = Some y"
  shows "walk_spec tokens pending current fresh y"
proof (rule walk_on.raw_induct [OF _ assms])
  fix f eng tokens pending current fresh y
  assume IH: "\<And>eng tokens pending current fresh y.
                 f eng tokens pending current fresh = Some y \<Longrightarrow> walk_spec tokens pending current fresh y"
    and step: "(case pending of
        None \<Rightarrow>
          (case token_at tokens current of
             None \<Rightarrow> Some (Inl (UndefinedAccess ''type''))
           | Some token \<Rightarrow>
               if ttype token = Number then
                 Some (Inr (NumberLiteral fresh (tvalue token), current + 1, fresh + 1))
               else if ttype token = String then
                 Some (Inr (StringLiteral fresh (tvalue token), current + 1, fresh + 1))
               else if ttype token = Paren \<and> tvalue token = ''('' then
                 (case token_at tokens (current + 1) of
                    None \<Rightarrow> Some (Inl (UndefinedAccess ''value''))
                  | Some token' \<Rightarrow>
                      f eng tokens (Some (fresh, tvalue token', [])) (current + 2) (fresh + 1))
               else Some (Inr (Undefined, current, fresh)))
      | Some (i, name, params) \<Rightarrow>
          (case token_at tokens current of
             None \<Rightarrow> Some (Inl (UndefinedAccess ''type''))
           | Some token \<Rightarrow>
               if ttype token \<noteq> Paren \<or> (ttype token = Paren \<and> tvalue token \<noteq> '')'') then
                 f eng tokens None current fresh \<bind>
                   (\<lambda>r. case r of
                      Inl e \<Rightarrow> Some (Inl e)
                    | Inr (n, current', fresh') \<Rightarrow>
                        (case array_push eng params n of
                           Inl e \<Rightarrow> Some (Inl e)
                         | Inr params' \<Rightarrow>
                             f eng tokens (Some (i, name, params')) current' fresh'))
               else Some (Inr (CallExpression i name params, current + 1, fresh)))) = Some y"
  show "walk_spec tokens pending current fresh y"
  proof (cases "current < length tokens")
    case False
    then have "y = Inl (UndefinedAccess ''type'')"
      using step by (auto simp: token_at_def split: option.splits)
    with False show ?thesis
      by (auto simp: walk_spec_def entry_stuck_def split: option.splits)
  next
    case True
    let ?tk = "tokens ! current"
    have tk: "token_at tokens current = Some ?tk" using True by (simp add: token_at_def)
    show ?thesis
    proof (cases pending)
      case None
      consider (num) "ttype ?tk = Number" | (str) "ttype ?tk = String"
        | (opn) "ttype ?tk = Paren" "tvalue ?tk = ''(''"
        | (stuck) "entry_stuck tokens current"
        using True by (cases "ttype ?tk") (auto simp: entry_stuck_def)
      then show ?thesis
      proof cases
        case num
        then have "y = Inr (NumberLiteral fresh (tvalue ?tk), current + 1, fresh + 1)"
          using step None tk by simp
        with num True None show ?thesis
          using parsed_number [OF True num, of fresh] by (simp add: walk_spec_def entry_stuck_def)
      next
        case str
        then have "y = Inr (StringLiteral fresh (tvalue ?tk), current + 1, fresh + 1)"
          using step None tk by simp
        with str True None show ?thesis
          using parsed_string [OF True str, of fresh] by (simp add: walk_spec_def entry_stuck_def)
      next
        case opn
        then have ns: "\<not> entry_stuck tokens current" by (simp add: entry_stuck_def)
        show ?thesis
        proof (cases "current + 1 < length tokens")
          case False
          then have "y = Inl (UndefinedAccess ''value'')"
            using step None tk opn by (simp add: token_at_def)
          with ns None show ?thesis by (simp add: walk_spec_def)
        next
          case l: True
          then have "f eng tokens (Some (fresh, tvalue (tokens ! (current + 1)), [])) (current + 2) (fresh + 1) = Some y"
            using step None tk opn by (simp add: token_at_def)
          from IH [OF this]
          have sp: "walk_spec tokens (Some (fresh, tvalue (tokens ! (current + 1)), [])) (current + 2) (fresh + 1) y" .
          have "parsed tokens current fresh [n] cur' fresh' \<and> current < cur'"
            if y: "y = Inr (n, cur', fresh')" for n cur' fresh'
          proof -
            from walk_spec_loop(2) [OF sp [unfolded y]]
            obtain ns where n: "n = CallExpression fresh (tvalue (tokens ! (current + 1))) ns"
              and p: "parsed tokens (current + 2) (fresh + 1) ns cur' fresh'" and "current + 2 < cur'"
              by auto
            from parsed_open [OF True opn(1) p] n \<open>current + 2 < cur'\<close> show ?thesis by simp
          qed
          with ns None show ?thesis by (simp add: walk_spec_def)
        qed
      next
        case stuck
        then have "y = Inr (Undefined, current, fresh)"
          using step None tk by (auto simp: entry_stuck_def)
        with stuck None show ?thesis by (simp add: walk_spec_def)
      qed
    next
      case (Some pend)
      obtain i name params where pend: "pend = (i, name, params)" by (cases pend)
      show ?thesis
      proof (cases "closing tokens current")
        case True
        then have "y = Inr (CallExpression i name params, current + 1, fresh)"
          using step Some pend tk by (simp add: closing_def)
        with True Some pend show ?thesis
          using parsed_close [OF True, of fresh] by (simp add: walk_spec_def)
      next
        case False
        then have nc: "ttype ?tk \<noteq> Paren \<or> (ttype ?tk = Paren \<and> tvalue ?tk \<noteq> '')'')"
          using \<open>current < length tokens\<close> by (auto simp: closing_def)
        then have st: "f eng tokens None current fresh \<bind>
                   (\<lambda>r. case r of
                      Inl e \<Rightarrow> Some (Inl e)
                    | Inr (n, current', fresh') \<Rightarrow>
                        (case array_push eng params n of
                           Inl e \<Rightarrow> Some (Inl e)
                         | Inr params' \<Rightarrow>
                             f eng tokens (Some (i, name, params')) current' fresh')) = Some y"
          using step Some pend tk by simp
        then obtain r where r: "f eng tokens None current fresh = Some r"
          and k: "(case r of Inl e \<Rightarrow> Some (Inl e)
                    | Inr (n, current', fresh') \<Rightarrow>
                        (case array_push eng params n of
                           Inl e \<Rightarrow> Some (Inl e)
                         | Inr params' \<Rightarrow>
                             f eng tokens (Some (i, name, params')) current' fresh')) = Some y"
          by (auto simp: bind_eq_Some_conv)
        from IH [OF r] have sr: "walk_spec tokens None current fresh r" .
        have stuck: "\<exists>e. y = Inl e" if es: "entry_stuck tokens current"
        proof -
          from walk_spec_entry(1) [OF sr es] have r': "r = Inr (Undefined, current, fresh)" .
          show ?thesis
          proof (cases "array_push eng params Undefined")
            case (Inl e)
            with k r' show ?thesis by auto
          next
            case (Inr params')
            with k r' have "f eng tokens (Some (i, name, params')) current fresh = Some y" by simp
            from walk_spec_loop(1) [OF IH [OF this] es False] show ?thesis .
          qed
        qed
        have "\<exists>ns. n = CallExpression i name (params @ ns) \<and>
                   parsed tokens current fresh ns cur' fresh' \<and> current < cur'"
          if y: "y = Inr (n, cur', fresh')" for n cur' fresh'
        proof (cases r)
          case (Inl e)
          with k y show ?thesis by simp
        next
          case (Inr t)
          obtain n1 c1 f1 where t: "t = (n1, c1, f1)" by (cases t)
          have ns: "\<not> entry_stuck tokens current" using stuck y by auto
          from sr Inr t ns have p1: "parsed tokens current fresh [n1] c1 f1" "current < c1"
            using walk_spec_entry(2) by blast+
          from k Inr t y obtain params' where pp: "array_push eng params n1 = Inr params'"
            and "f eng tokens (Some (i, name, params')) c1 f1 = Some (Inr (n, cur', fresh'))"
            by (cases "array_push eng params n1") auto
          then have "f eng tokens (Some (i, name, params @ [n1])) c1 f1 = Some (Inr (n, cur', fresh'))"
            using array_push_Inr [OF pp] by simp
          from walk_spec_loop(2) [OF IH [OF this]]
          obtain ns where n: "n = CallExpression i name ((params @ [n1]) @ ns)"
            and p2: "parsed tokens c1 f1 ns cur' fresh'" and "c1 < cur'" by auto
          from parsed_append [OF p1(1) p2] n p1(2) \<open>c1 < cur'\<close>
          show ?thesis by (intro exI [where x = "n1 # ns"]) simp
        qed
        with stuck False Some pend show ?thesis by (simp add: walk_spec_def)
      qed
    qed
  qed
qed

lemma parsed_Nil: "cur \<le> length tokens \<Longrightarrow> parsed tokens cur fresh [] cur fresh"
  by (auto simp: parsed_def covers_def)

lemma parser_loop_spec:
  assumes "parser_loop_on eng tokens current fresh body = Some y"
  shows "current \<le> length tokens \<longrightarrow>
         (entry_stuck tokens current \<longrightarrow> (\<exists>e. y = Inl e)) \<and>
         (\<forall>res. y = Inr res \<longrightarrow>
            (\<exists>ns fresh'. res = body @ ns \<and> parsed tokens current fresh ns (length tokens) fresh'))"
proof (rule parser_loop_on.raw_induct [OF _ assms])
  fix f eng tokens current fresh body y
  assume IH: "\<And>eng tokens current fresh body y. f eng tokens current fresh body = Some y \<Longrightarrow>
         current \<le> length tokens \<longrightarrow>
         (entry_stuck tokens current \<longrightarrow> (\<exists>e. y = Inl e)) \<and>
         (\<forall>res. y = Inr res \<longrightarrow>
            (\<exists>ns fresh'. res = body @ ns \<and> parsed tokens current fresh ns (length tokens) fresh'))"
    and step: "(if current < length tokens then
        walk_on eng tokens None current fresh \<bind>
          (\<lambda>r. case r of
             Inl e \<Rightarrow> Some (Inl e)
           | Inr (n, current', fresh') \<Rightarrow>
               (case array_push eng body n of
                  Inl e \<Rightarrow> Some (Inl e)
                | Inr body' \<Rightarrow> f eng tokens current' fresh' body'))
      else Some (Inr body)) = Some y"
  show "current \<le> length tokens \<longrightarrow>
         (entry_stuck tokens current \<longrightarrow> (\<exists>e. y = Inl e)) \<and>
         (\<forall>res. y = Inr res \<longrightarrow>
            (\<exists>ns fresh'. res = body @ ns \<and> parsed tokens current fresh ns (length tokens) fresh'))"
  proof (intro impI)
    assume le: "current \<le> length tokens"
    show "(entry_stuck tokens current \<longrightarrow> (\<exists>e. y = Inl e)) \<and>
         (\<forall>res. y = Inr res \<longrightarrow>
            (\<exists>ns fresh'. res = body @ ns \<and> parsed tokens current fresh ns (length tokens) fresh'))"
    proof (cases "current < length tokens")
      case False
      with le have eq: "current = length tokens" by simp
      from False step have "y = Inr body" by simp
      with eq show ?thesis
        using parsed_Nil [of "length tokens" tokens fresh] by (auto simp: entry_stuck_def)
    next
      case True
      with step obtain r where r: "walk_on eng tokens None current fresh = Some r"
        and k: "(case r of Inl e \<Rightarrow> Some (Inl e)
                  | Inr (n, current', fresh') \<Rightarrow>
                      (case array_push eng body n of
                         Inl e \<Rightarrow> Some (Inl e)
                       | Inr body' \<Rightarrow> f eng tokens current' fresh' body')) = Some y"
        by (auto simp: bind_eq_Some_conv)
      from walk_spec_holds [OF r] have sr: "walk_spec tokens None current fresh r" .
      have stuck: "\<exists>e. y = Inl e" if es: "entry_stuck tokens current"
      proof -
        from walk_spec_entry(1) [OF sr es] have r': "r = Inr (Undefined, current, fresh)" .
        show ?thesis
        proof (cases "array_push eng body Undefined")
          case (Inl e)
          with k r' show ?thesis by auto
        next
          case (Inr body')
          with k r' have "f eng tokens current fresh body' = Some y" by simp
          from IH [OF this] le es show ?thesis by simp
        qed
      qed
      have "\<exists>ns fresh'. res = body @ ns \<and> parsed tokens current fresh ns (length tokens) fresh'"
        if y: "y = Inr res" for res
      proof (cases r)
        case (Inl e)
        with k y show ?thesis by simp
      next
        case (Inr t)
        obtain n1 c1 f1 where t: "t = (n1, c1, f1)" by (cases t)
        have ns: "\<not> entry_stuck tokens current" using stuck y by auto
        from sr Inr t ns have p1: "parsed tokens current fresh [n1] c1 f1"
          using walk_spec_entry(2) by blast
        then have c1: "c1 \<le> length tokens" by (rule parsedD(6))
        from k Inr t y obtain body' where pp: "array_push eng body n1 = Inr body'"
          and "f eng tokens c1 f1 body' = Some (Inr res)"
          by (cases "array_push eng body n1") auto
        then have "f eng tokens c1 f1 (body @ [n1]) = Some (Inr res)"
          using array_push_Inr [OF pp] by simp
        from IH [OF this] c1
        obtain ns fresh' where res: "res = (body @ [n1]) @ ns"
          and p2: "parsed tokens c1 f1 ns (length tokens) fresh'" by auto
        from parsed_append [OF p1 p2] res show ?thesis
          by (intro exI [where x = "n1 # ns"] exI [where x = fresh']) simp
      qed
      with stuck show ?thesis by blast
    qed
  qed
qed

lemma parser_result:
  assumes "parser_on eng tokens = Some (Inr p)"
  shows "well_formed p \<and> covers tokens 0 (length tokens) (texts p)"
proof -
  from assms obtain r where r: "parser_loop_on eng tokens 0 1 [] = Some r"
    and k: "(case r of Inl e \<Rightarrow> Some (Inl e) | Inr body \<Rightarrow> Some (Inr (Program 0 body))) = Some (Inr p)"
    by (auto simp: parser_on_def bind_eq_Some_conv)
  from k obtain body where rb: "r = Inr body" and p: "p = Program 0 body"
    by (cases r) auto
  from r rb have b: "parser_loop_on eng tokens 0 1 [] = Some (Inr body)" by simp
  from parser_loop_spec [OF b] obtain fresh' where ps: "parsed tokens 0 1 body (length tokens) fresh'"
    by auto
  have "0 \<notin> set (concat (map call_oids body))"
    using parsedD(3) [OF ps, of 0] by auto
  with p show ?thesis
    using parsedD(1,2,7) [OF ps] by simp
qed

section \<open>Termination on an engine with limits\<close>

text \<open>
  On an engine with a maximal string length each turn of the letter loop and of the
  string loop uses up room in \<^verbatim>\<open>value\<close>, so the loop returns or overflows; the main loop
  of the tokenizer moves the cursor forward in every turn. On an engine with a maximal
  array length a turn of a loop of the parser moves the cursor forward or, on a token
  that \<^verbatim>\<open>walk\<close> does not consume, uses up room in the array.
\<close>

lemma to_string_nonempty: "0 < length (to_string ch)"
  by (cases ch) simp_all

lemma room_shrinks:
  "0 < length w \<Longrightarrow> length (v @ w) \<le> L \<Longrightarrow> L - length (v @ w) < L - length v"
  by (cases w) simp_all

lemma append_string_cases:
  "max_string_length eng = Some L \<Longrightarrow>
   (append_string eng v w = Inr (v @ w) \<and> length (v @ w) \<le> L) \<or>
   (append_string eng v w = Inl (RangeError ''Invalid string length'') \<and> L < length (v @ w))"
  by (cases "length (v @ w) \<le> L") (auto simp: append_string_def)

lemma array_push_cases:
  "max_array_length eng = Some A \<Longrightarrow>
   (array_push eng xs x = Inr (xs @ [x]) \<and> length xs < A) \<or>
   (array_push eng xs x = Inl (RangeError ''Invalid array length'') \<and> A \<le> length xs)"
  by (cases "length xs < A") (auto simp: array_push_def)

lemma name_loop_cursor:
  assumes "name_loop_on eng input current v ch = Some y"
  shows "\<forall>c' v'. y = Inr (c', v') \<longrightarrow> current \<le> c' \<and> (LETTER_test ch \<longrightarrow> current < c')"
proof (rule name_loop_on.raw_induct [OF _ assms])
  fix f eng input current v ch y
  assume IH: "\<And>eng input current v ch y. f eng input current v ch = Some y \<Longrightarrow>
                \<forall>c' v'. y = Inr (c', v') \<longrightarrow> current \<le> c' \<and> (LETTER_test ch \<longrightarrow> current < c')"
    and step: "(if LETTER_test ch then
        (case append_string eng v (to_string ch) of
           Inl e \<Rightarrow> Some (Inl e)
         | Inr val' \<Rightarrow> f eng input (current + 1) val' (char_at input (current + 1)))
      else Some (Inr (current, v))) = Some y"
  show "\<forall>c' v'. y = Inr (c', v') \<longrightarrow> current \<le> c' \<and> (LETTER_test ch \<longrightarrow> current < c')"
  proof (intro allI impI)
    fix c' v' assume y: "y = Inr (c', v')"
    show "current \<le> c' \<and> (LETTER_test ch \<longrightarrow> current < c')"
    proof (cases "LETTER_test ch")
      case False
      with step y show ?thesis by simp
    next
      case True
      with step y obtain val' where
        "f eng input (current + 1) val' (char_at input (current + 1)) = Some (Inr (c', v'))"
        by (cases "append_string eng v (to_string ch)") auto
      from IH [OF this] show ?thesis by simp
    qed
  qed
qed

lemma string_loop_cursor:
  assumes "string_loop_on eng input current v ch = Some y"
  shows "\<forall>c' v'. y = Inr (c', v') \<longrightarrow> current \<le> c'"
proof (rule string_loop_on.raw_induct [OF _ assms])
  fix f eng input current v ch y
  assume IH: "\<And>eng input current v ch y. f eng input current v ch = Some y \<Longrightarrow>
                \<forall>c' v'. y = Inr (c', v') \<longrightarrow> current \<le> c'"
    and step: "(if ch \<noteq> Some (CHR 0x22) then
        (case append_string eng v (to_string ch) of
           Inl e \<Rightarrow> Some (Inl e)
         | Inr val' \<Rightarrow> f eng input (current + 1) val' (char_at input (current + 1)))
      else Some (Inr (current, v))) = Some y"
  show "\<forall>c' v'. y = Inr (c', v') \<longrightarrow> current \<le> c'"
  proof (intro allI impI)
    fix c' v' assume y: "y = Inr (c', v')"
    show "current \<le> c'"
    proof (cases "ch \<noteq> Some (CHR 0x22)")
      case False
      with step y show ?thesis by simp
    next
      case True
      with step y obtain val' where
        "f eng input (current + 1) val' (char_at input (current + 1)) = Some (Inr (c', v'))"
        by (cases "append_string eng v (to_string ch)") auto
      from IH [OF this] show ?thesis by simp
    qed
  qed
qed

lemma name_loop_returns:
  assumes L: "max_string_length eng = Some L"
  shows "\<exists>r. name_loop_on eng input current v ch = Some r"
proof (induction "L - length v" arbitrary: current v ch rule: less_induct)
  case less
  show ?case
  proof (cases "LETTER_test ch")
    case False
    then show ?thesis by (subst name_loop_on.simps) simp
  next
    case True
    consider (fits) "append_string eng v (to_string ch) = Inr (v @ to_string ch)"
          "length (v @ to_string ch) \<le> L"
      | (over) "append_string eng v (to_string ch) = Inl (RangeError ''Invalid string length'')"
      using append_string_cases [OF L, of v "to_string ch"] by blast
    then show ?thesis
    proof cases
      case over
      with True show ?thesis by (subst name_loop_on.simps) simp
    next
      case fits
      have "L - length (v @ to_string ch) < L - length v"
        using to_string_nonempty fits(2) by (rule room_shrinks)
      from less [OF this]
      obtain r where "name_loop_on eng input (current + 1) (v @ to_string ch)
                        (char_at input (current + 1)) = Some r"
        by blast
      with True fits(1) show ?thesis by (subst name_loop_on.simps) simp
    qed
  qed
qed

lemma string_loop_returns:
  assumes L: "max_string_length eng = Some L"
  shows "\<exists>r. string_loop_on eng input current v ch = Some r"
proof (induction "L - length v" arbitrary: current v ch rule: less_induct)
  case less
  show ?case
  proof (cases "ch \<noteq> Some (CHR 0x22)")
    case False
    then show ?thesis by (subst string_loop_on.simps) simp
  next
    case True
    consider (fits) "append_string eng v (to_string ch) = Inr (v @ to_string ch)"
          "length (v @ to_string ch) \<le> L"
      | (over) "append_string eng v (to_string ch) = Inl (RangeError ''Invalid string length'')"
      using append_string_cases [OF L, of v "to_string ch"] by blast
    then show ?thesis
    proof cases
      case over
      with True show ?thesis by (subst string_loop_on.simps) simp
    next
      case fits
      have "L - length (v @ to_string ch) < L - length v"
        using to_string_nonempty fits(2) by (rule room_shrinks)
      from less [OF this]
      obtain r where "string_loop_on eng input (current + 1) (v @ to_string ch)
                        (char_at input (current + 1)) = Some r"
        by blast
      with True fits(1) show ?thesis by (subst string_loop_on.simps) simp
    qed
  qed
qed

lemma name_loop_overflow:
  assumes L: "max_string_length eng = Some L"
    and all: "\<forall>i. current \<le> i \<and> i < length input \<longrightarrow> is_letter (input ! i)"
  shows "name_loop_on eng input current v (char_at input current) =
           Some (Inl (RangeError ''Invalid string length''))"
  using all
proof (induction "L - length v" arbitrary: current v rule: less_induct)
  case less
  let ?ch = "char_at input current"
  have t: "LETTER_test ?ch"
    using less.prems
    by (cases "current < length input") (auto simp: LETTER_test_def is_letter_def)
  consider (fits) "append_string eng v (to_string ?ch) = Inr (v @ to_string ?ch)"
        "length (v @ to_string ?ch) \<le> L"
    | (over) "append_string eng v (to_string ?ch) = Inl (RangeError ''Invalid string length'')"
    using append_string_cases [OF L, of v "to_string ?ch"] by blast
  then show ?case
  proof cases
    case over
    with t show ?thesis by (subst name_loop_on.simps) simp
  next
    case fits
    have "L - length (v @ to_string ?ch) < L - length v"
      using to_string_nonempty fits(2) by (rule room_shrinks)
    from less(1) [OF this, of "current + 1"] less.prems
    have "name_loop_on eng input (current + 1) (v @ to_string ?ch) (char_at input (current + 1)) =
            Some (Inl (RangeError ''Invalid string length''))"
      by simp
    with t fits(1) show ?thesis by (subst name_loop_on.simps) simp
  qed
qed

lemma string_loop_overflow:
  assumes L: "max_string_length eng = Some L"
    and all: "\<forall>i. current \<le> i \<and> i < length input \<longrightarrow> input ! i \<noteq> CHR 0x22"
  shows "string_loop_on eng input current v (char_at input current) =
           Some (Inl (RangeError ''Invalid string length''))"
  using all
proof (induction "L - length v" arbitrary: current v rule: less_induct)
  case less
  let ?ch = "char_at input current"
  have t: "?ch \<noteq> Some (CHR 0x22)"
    using less.prems by (cases "current < length input") auto
  consider (fits) "append_string eng v (to_string ?ch) = Inr (v @ to_string ?ch)"
        "length (v @ to_string ?ch) \<le> L"
    | (over) "append_string eng v (to_string ?ch) = Inl (RangeError ''Invalid string length'')"
    using append_string_cases [OF L, of v "to_string ?ch"] by blast
  then show ?case
  proof cases
    case over
    with t show ?thesis by (subst string_loop_on.simps) simp
  next
    case fits
    have "L - length (v @ to_string ?ch) < L - length v"
      using to_string_nonempty fits(2) by (rule room_shrinks)
    from less(1) [OF this, of "current + 1"] less.prems
    have "string_loop_on eng input (current + 1) (v @ to_string ?ch) (char_at input (current + 1)) =
            Some (Inl (RangeError ''Invalid string length''))"
      by simp
    with t fits(1) show ?thesis by (subst string_loop_on.simps) simp
  qed
qed

lemma tokenizer_loop_returns:
  assumes L: "max_string_length eng = Some L"
  shows "\<exists>r. tokenizer_loop_on eng input current tokens = Some r"
proof (induction "length input - current" arbitrary: current tokens rule: less_induct)
  case less
  show ?case
  proof (cases "current < length input")
    case False
    then show ?thesis by (simp add: tokenizer_loop_done)
  next
    case True
    let ?ch = "char_at input current"
    have ch: "?ch = Some (input ! current)" using True by simp
    have IH: "\<exists>r. tokenizer_loop_on eng input c toks = Some r" if "current < c" for c toks
      using that True by (intro less) arith
    have pushed: "\<exists>r. (case array_push eng tokens t of
                        Inl e \<Rightarrow> Some (Inl e)
                      | Inr tokens' \<Rightarrow> tokenizer_loop_on eng input c tokens') = Some r"
      if "current < c" for c t
      using IH [OF that] by (cases "array_push eng tokens t") simp_all
    consider (paren) "?ch = Some CHR ''('' \<or> ?ch = Some CHR '')''"
      | (space) "\<not> (?ch = Some CHR ''('' \<or> ?ch = Some CHR '')'')" "WS_test ?ch"
      | (digit) "\<not> (?ch = Some CHR ''('' \<or> ?ch = Some CHR '')'')" "\<not> WS_test ?ch" "NUMBER_test ?ch"
      | (quote) "\<not> (?ch = Some CHR ''('' \<or> ?ch = Some CHR '')'')" "\<not> WS_test ?ch"
          "\<not> NUMBER_test ?ch" "?ch = Some (CHR 0x22)"
      | (letter) "\<not> (?ch = Some CHR ''('' \<or> ?ch = Some CHR '')'')" "\<not> WS_test ?ch"
          "\<not> NUMBER_test ?ch" "?ch \<noteq> Some (CHR 0x22)" "LETTER_test ?ch"
      | (other) "\<not> (?ch = Some CHR ''('' \<or> ?ch = Some CHR '')'')" "\<not> WS_test ?ch"
          "\<not> NUMBER_test ?ch" "?ch \<noteq> Some (CHR 0x22)" "\<not> LETTER_test ?ch"
      by blast
    then show ?thesis
    proof cases
      case paren
      from pushed [of "current + 1" "\<lparr>ttype = Paren, tvalue = to_string ?ch\<rparr>"]
      show ?thesis using True paren by (subst tokenizer_loop_on.simps) (simp add: Let_def)
    next
      case space
      from IH [of "current + 1" tokens]
      show ?thesis using True space by (subst tokenizer_loop_on.simps) (simp add: Let_def)
    next
      case digit
      from pushed [of "current + 1" "\<lparr>ttype = Number, tvalue = to_string ?ch\<rparr>"]
      show ?thesis using True digit by (subst tokenizer_loop_on.simps) (simp add: Let_def)
    next
      case quote
      from string_loop_returns [OF L] obtain r where
        r: "string_loop_on eng input (current + 1) [] (char_at input (current + 1)) = Some r"
        by blast
      have "\<exists>z. (case r of
                Inl e \<Rightarrow> Some (Inl e)
              | Inr (current', val) \<Rightarrow>
                  (case array_push eng tokens \<lparr>ttype = String, tvalue = val\<rparr> of
                     Inl e \<Rightarrow> Some (Inl e)
                   | Inr tokens' \<Rightarrow> tokenizer_loop_on eng input (current' + 1) tokens')) = Some z"
      proof (cases r)
        case (Inl e)
        then show ?thesis by simp
      next
        case (Inr p)
        obtain c' val where p: "p = (c', val)" by (cases p)
        from string_loop_cursor [OF r] Inr p have "current + 1 \<le> c'" by simp
        then have "current < c' + 1" by simp
        from pushed [OF this] Inr p show ?thesis by simp
      qed
      then show ?thesis
        using True quote r by (subst tokenizer_loop_on.simps) (simp add: Let_def)
    next
      case letter
      from name_loop_returns [OF L] obtain r where
        r: "name_loop_on eng input current [] ?ch = Some r"
        by blast
      have "\<exists>z. (case r of
                Inl e \<Rightarrow> Some (Inl e)
              | Inr (current', val) \<Rightarrow>
                  (case array_push eng tokens \<lparr>ttype = Name, tvalue = val\<rparr> of
                     Inl e \<Rightarrow> Some (Inl e)
                   | Inr tokens' \<Rightarrow> tokenizer_loop_on eng input current' tokens')) = Some z"
      proof (cases r)
        case (Inl e)
        then show ?thesis by simp
      next
        case (Inr p)
        obtain c' val where p: "p = (c', val)" by (cases p)
        from name_loop_cursor [OF r] Inr p letter(5) have "current < c'" by simp
        from pushed [OF this] Inr p show ?thesis by simp
      qed
      then show ?thesis
        using True letter r by (subst tokenizer_loop_on.simps) (simp add: Let_def)
    next
      case other
      show ?thesis
        using True other
        by (subst tokenizer_loop_on.simps)
           (simp add: Let_def split: sum.splits)
    qed
  qed
qed

lemma walk_advances:
  assumes "walk_on eng tokens None current fresh = Some (Inr (n, current', fresh'))"
  shows "current \<le> current'"
proof (cases "entry_stuck tokens current")
  case True
  from walk_spec_entry(1) [OF walk_spec_holds [OF assms] True] show ?thesis by simp
next
  case False
  from walk_spec_entry(2) [OF walk_spec_holds [OF assms] False] show ?thesis by simp
qed

lemma walk_returns:
  assumes A: "max_array_length eng = Some A"
  shows "\<exists>r. walk_on eng tokens pending current fresh = Some r"
proof -
  define m1 where "m1 = (\<lambda>(pending :: (oid \<times> string \<times> node list) option, current :: nat).
                           length tokens - current)"
  define m2 where "m2 = (\<lambda>(pending :: (oid \<times> string \<times> node list) option, current :: nat).
                           (case pending of None \<Rightarrow> 0 :: nat | Some p \<Rightarrow> 1))"
  define m3 where "m3 = (\<lambda>(pending :: (oid \<times> string \<times> node list) option, current :: nat).
                           (case pending of None \<Rightarrow> 0 | Some (i, name, params) \<Rightarrow> A - length params))"
  have "wf (measures [m1, m2, m3])" by simp
  then have "\<forall>fresh. \<exists>r. walk_on eng tokens (fst x) (snd x) fresh = Some r" for x
  proof (induction x rule: wf_induct_rule)
    case (less x)
    obtain pending current where x: "x = (pending, current)" by (cases x)
    have IH: "\<exists>r. walk_on eng tokens pending' current' fresh' = Some r"
      if "((pending', current'), (pending, current)) \<in> measures [m1, m2, m3]"
      for pending' current' fresh'
      using less [of "(pending', current')"] that x by simp
    show ?case
    proof (intro allI)
      fix fresh
      show "\<exists>r. walk_on eng tokens (fst x) (snd x) fresh = Some r"
      proof (cases "current < length tokens")
        case False
        then show ?thesis by (simp add: x walk_end)
      next
        case True
        let ?tk = "tokens ! current"
        show ?thesis
        proof (cases pending)
          case None
          consider (num) "ttype ?tk = Number" | (str) "ttype ?tk = String"
            | (opn) "ttype ?tk = Paren" "tvalue ?tk = ''(''"
            | (stuck) "ttype ?tk = Name \<or> (ttype ?tk = Paren \<and> tvalue ?tk \<noteq> ''('')"
            by (cases "ttype ?tk") auto
          then show ?thesis
          proof cases
            case num
            with True None x show ?thesis by (simp add: walk_number)
          next
            case str
            with True None x show ?thesis by (simp add: walk_string)
          next
            case opn
            have "\<exists>r. walk_on eng tokens (Some (fresh, tvalue (tokens ! (current + 1)), []))
                         (current + 2) (fresh + 1) = Some r"
              using True by (intro IH) (auto simp: m1_def)
            with True None x opn show ?thesis by (simp add: walk_open)
          next
            case stuck
            with True None x show ?thesis by (simp add: walk_stuck)
          qed
        next
          case (Some pend)
          obtain i name params where pend: "pend = (i, name, params)" by (cases pend)
          show ?thesis
          proof (cases "ttype ?tk = Paren \<and> tvalue ?tk = '')''")
            case closing: True
            with True Some pend x show ?thesis by (simp add: walk_close)
          next
            case nc: False
            then have nc': "ttype ?tk \<noteq> Paren \<or> tvalue ?tk \<noteq> '')''" by simp
            have "\<exists>r. walk_on eng tokens None current fresh = Some r"
              by (intro IH) (simp add: m1_def m2_def Some)
            then obtain r where r: "walk_on eng tokens None current fresh = Some r" by blast
            have "\<exists>z. (case r of
                        Inl e \<Rightarrow> Some (Inl e)
                      | Inr (n, current', fresh') \<Rightarrow>
                          (case array_push eng params n of
                             Inl e \<Rightarrow> Some (Inl e)
                           | Inr params' \<Rightarrow>
                               walk_on eng tokens (Some (i, name, params')) current' fresh')) = Some z"
            proof (cases r)
              case (Inl e)
              then show ?thesis by simp
            next
              case (Inr t)
              obtain n c1 f1 where t: "t = (n, c1, f1)" by (cases t)
              from r Inr t have adv: "current \<le> c1" by (intro walk_advances) simp
              from array_push_cases [OF A, of params n]
              show ?thesis
              proof
                assume "array_push eng params n = Inl (RangeError ''Invalid array length'') \<and>
                        A \<le> length params"
                with Inr t show ?thesis by simp
              next
                assume room: "array_push eng params n = Inr (params @ [n]) \<and> length params < A"
                have "\<exists>z. walk_on eng tokens (Some (i, name, params @ [n])) c1 f1 = Some z"
                proof (intro IH)
                  show "((Some (i, name, params @ [n]), c1), (pending, current)) \<in> measures [m1, m2, m3]"
                    using adv True room
                    by (cases "c1 = current") (auto simp: m1_def m2_def m3_def Some pend)
                qed
                with Inr t room show ?thesis by simp
              qed
            qed
            with True Some pend x nc' r show ?thesis by (simp add: walk_param)
          qed
        qed
      qed
    qed
  qed
  from this [of "(pending, current)"] show ?thesis by simp
qed

lemma parser_loop_returns:
  assumes A: "max_array_length eng = Some A"
  shows "\<exists>r. parser_loop_on eng tokens current fresh body = Some r"
proof -
  define m1 where "m1 = (\<lambda>(current :: nat, body :: node list). length tokens - current)"
  define m2 where "m2 = (\<lambda>(current :: nat, body :: node list). A - length body)"
  have "wf (measures [m1, m2])" by simp
  then have "\<forall>fresh. \<exists>r. parser_loop_on eng tokens (fst x) fresh (snd x) = Some r" for x
  proof (induction x rule: wf_induct_rule)
    case (less x)
    obtain current body where x: "x = (current, body)" by (cases x)
    have IH: "\<exists>r. parser_loop_on eng tokens current' fresh' body' = Some r"
      if "((current', body'), (current, body)) \<in> measures [m1, m2]"
      for current' fresh' body'
      using less [of "(current', body')"] that x by simp
    show ?case
    proof (intro allI)
      fix fresh
      show "\<exists>r. parser_loop_on eng tokens (fst x) fresh (snd x) = Some r"
      proof (cases "current < length tokens")
        case False
        then show ?thesis by (simp add: x parser_loop_done)
      next
        case True
        from walk_returns [OF A] obtain r where
          r: "walk_on eng tokens None current fresh = Some r" by blast
        have "\<exists>z. (case r of
                    Inl e \<Rightarrow> Some (Inl e)
                  | Inr (n, current', fresh') \<Rightarrow>
                      (case array_push eng body n of
                         Inl e \<Rightarrow> Some (Inl e)
                       | Inr body' \<Rightarrow> parser_loop_on eng tokens current' fresh' body')) = Some z"
        proof (cases r)
          case (Inl e)
          then show ?thesis by simp
        next
          case (Inr t)
          obtain n c1 f1 where t: "t = (n, c1, f1)" by (cases t)
          from r Inr t have adv: "current \<le> c1" by (intro walk_advances) simp
          from array_push_cases [OF A, of body n]
          show ?thesis
          proof
            assume "array_push eng body n = Inl (RangeError ''Invalid array length'') \<and>
                    A \<le> length body"
            with Inr t show ?thesis by simp
          next
            assume room: "array_push eng body n = Inr (body @ [n]) \<and> length body < A"
            have "\<exists>z. parser_loop_on eng tokens c1 f1 (body @ [n]) = Some z"
            proof (intro IH)
              show "((c1, body @ [n]), (current, body)) \<in> measures [m1, m2]"
                using adv True room
                by (cases "c1 = current") (auto simp: m1_def m2_def)
            qed
            with Inr t room show ?thesis by simp
          qed
        qed
        with True x r show ?thesis by (simp add: parser_loop_step)
      qed
    qed
  qed
  from this [of "(current, body)"] show ?thesis by simp
qed

lemma parser_loop_overflow:
  assumes A: "max_array_length eng = Some A"
    and cur: "current < length tokens"
    and stuck: "ttype (tokens ! current) = Name \<or>
                  (ttype (tokens ! current) = Paren \<and> tvalue (tokens ! current) \<noteq> ''('')"
  shows "parser_loop_on eng tokens current fresh body =
           Some (Inl (RangeError ''Invalid array length''))"
proof (induction "A - length body" arbitrary: body rule: less_induct)
  case less
  have w: "walk_on eng tokens None current fresh = Some (Inr (Undefined, current, fresh))"
    using cur stuck by (rule walk_stuck)
  from array_push_cases [OF A, of body Undefined]
  show ?case
  proof
    assume "array_push eng body Undefined = Inl (RangeError ''Invalid array length'') \<and>
            A \<le> length body"
    with cur w show ?thesis by (simp add: parser_loop_step)
  next
    assume room: "array_push eng body Undefined = Inr (body @ [Undefined]) \<and> length body < A"
    then have "A - length (body @ [Undefined]) < A - length body" by auto
    from less [OF this] cur w room show ?thesis by (simp add: parser_loop_step)
  qed
qed

lemma tokenizer_returns:
  "max_string_length eng = Some L \<Longrightarrow> \<exists>r. tokenizer_on eng input = Some r"
  unfolding tokenizer_on_def by (rule tokenizer_loop_returns)

lemma parser_returns:
  assumes "max_array_length eng = Some A"
  shows "\<exists>r. parser_on eng tokens = Some r"
proof -
  from parser_loop_returns [OF assms] obtain r where
    "parser_loop_on eng tokens 0 1 [] = Some r" by blast
  then show ?thesis by (cases r) (simp_all add: parser_on_def)
qed

lemma tokenizer_name_overflow:
  assumes L: "max_string_length eng = Some L"
  shows "tokenizer_on eng ''add'' = Some (Inl (RangeError ''Invalid string length''))"
proof -
  have "name_loop_on eng ''add'' 0 [] (char_at ''add'' 0) =
          Some (Inl (RangeError ''Invalid string length''))"
    using L by (rule name_loop_overflow) (auto simp: is_letter_def nth_Cons split: nat.splits)
  then show ?thesis
    unfolding tokenizer_on_def
    by (subst tokenizer_loop_on.simps) (simp add: is_space_def is_digit_def is_letter_def)
qed

lemma tokenizer_string_overflow:
  assumes L: "max_string_length eng = Some L"
  shows "tokenizer_on eng [CHR 0x22, CHR ''a'', CHR ''b'', CHR ''c''] =
           Some (Inl (RangeError ''Invalid string length''))"
proof -
  let ?input = "[CHR 0x22, CHR ''a'', CHR ''b'', CHR ''c'']"
  have "string_loop_on eng ?input (0 + 1) [] (char_at ?input (0 + 1)) =
          Some (Inl (RangeError ''Invalid string length''))"
    using L by (rule string_loop_overflow) (auto simp: nth_Cons split: nat.splits)
  then show ?thesis
    unfolding tokenizer_on_def
    by (subst tokenizer_loop_on.simps) (simp add: is_space_def is_digit_def)
qed

lemma parser_stray_overflow:
  assumes A: "max_array_length eng = Some A"
  shows "parser_on eng [\<lparr>ttype = Paren, tvalue = '')''\<rparr>] =
           Some (Inl (RangeError ''Invalid array length''))"
proof -
  have "parser_loop_on eng [\<lparr>ttype = Paren, tvalue = '')''\<rparr>] 0 1 [] =
          Some (Inl (RangeError ''Invalid array length''))"
    using A by (rule parser_loop_overflow) simp_all
  then show ?thesis by (simp add: parser_on_def)
qed

section \<open>The traverser and the depth-first order\<close>

lemma run_events_append:
  "run_events visitor (xs @ ys) s =
     (case run_events visitor xs s of Inl x \<Rightarrow> Inl x | Inr s' \<Rightarrow> run_events visitor ys s')"
  by (induction xs arbitrary: s) (auto split: sum.splits)

lemma traverseNode_Program:
  "traverseNode visitor (Program i body) parent s =
     (case call_enter (visitor ''Program'') (Program i body) parent s of
        Inl e \<Rightarrow> Inl e
      | Inr s1 \<Rightarrow>
          (case traverseArray visitor body (Some (Program i body)) s1 of
             Inl e \<Rightarrow> Inl e
           | Inr s2 \<Rightarrow> call_exit (visitor ''Program'') (Program i body) parent s2))"
  by (simp add: Let_def split: sum.splits)

lemma traverseNode_CallExpression:
  "traverseNode visitor (CallExpression i name params) parent s =
     (case call_enter (visitor ''CallExpression'') (CallExpression i name params) parent s of
        Inl e \<Rightarrow> Inl e
      | Inr s1 \<Rightarrow>
          (case traverseArray visitor params (Some (CallExpression i name params)) s1 of
             Inl e \<Rightarrow> Inl e
           | Inr s2 \<Rightarrow>
               call_exit (visitor ''CallExpression'') (CallExpression i name params) parent s2))"
  by (simp add: Let_def split: sum.splits)

lemma traverseNode_leaf:
  "traverseNode visitor (NumberLiteral i v) parent s =
     (case call_enter (visitor ''NumberLiteral'') (NumberLiteral i v) parent s of
        Inl e \<Rightarrow> Inl e
      | Inr s1 \<Rightarrow> call_exit (visitor ''NumberLiteral'') (NumberLiteral i v) parent s1)"
  "traverseNode visitor (StringLiteral i v) parent s =
     (case call_enter (visitor ''StringLiteral'') (StringLiteral i v) parent s of
        Inl e \<Rightarrow> Inl e
      | Inr s1 \<Rightarrow> call_exit (visitor ''StringLiteral'') (StringLiteral i v) parent s1)"
  "traverseNode visitor Undefined parent s = Inl (UndefinedAccess ''type'')"
  by (simp_all add: Let_def split: sum.splits)

declare traverseNode.simps [simp del]

lemma call_enter_run_event:
  "type_of node = Some t \<Longrightarrow>
   call_enter (visitor t) node parent s = run_event visitor (Enter node parent) s"
  by (cases node) (auto simp: call_enter_def run_event_def split: option.splits)

lemma call_exit_run_event:
  "type_of node = Some t \<Longrightarrow>
   call_exit (visitor t) node parent s = run_event visitor (Exit node parent) s"
  by (cases node) (auto simp: call_exit_def run_event_def split: option.splits)

lemma traverseArray_events:
  assumes "\<And>c s. c \<in> set cs \<Longrightarrow> traverseNode visitor c parent s = run_events visitor (depth_first c parent) s"
  shows "traverseArray visitor cs parent s =
           run_events visitor (concat (map (\<lambda>c. depth_first c parent) cs)) s"
  using assms
proof (induction cs arbitrary: s)
  case Nil
  then show ?case by simp
next
  case (Cons c cs)
  have "traverseNode visitor c parent s = run_events visitor (depth_first c parent) s"
    by (rule Cons.prems) simp
  moreover have "traverseArray visitor cs parent s' =
           run_events visitor (concat (map (\<lambda>c. depth_first c parent) cs)) s'" for s'
    by (rule Cons.IH) (simp add: Cons.prems)
  ultimately show ?case
    by (simp add: run_events_append split: sum.splits)
qed

lemma traverseNode_events:
  "defined node \<Longrightarrow> traverseNode visitor node parent s = run_events visitor (depth_first node parent) s"
proof (induction node arbitrary: parent s)
  case (Program i body)
  have "traverseArray visitor body (Some (Program i body)) s' =
          run_events visitor (concat (map (\<lambda>c. depth_first c (Some (Program i body))) body)) s'" for s'
    using Program by (intro traverseArray_events) (auto simp: list_all_iff)
  then show ?case
    by (simp add: traverseNode_Program run_events_append call_enter_run_event
          call_exit_run_event split: sum.splits)
next
  case (CallExpression i name params)
  have "traverseArray visitor params (Some (CallExpression i name params)) s' =
          run_events visitor
            (concat (map (\<lambda>c. depth_first c (Some (CallExpression i name params))) params)) s'" for s'
    using CallExpression by (intro traverseArray_events) (auto simp: list_all_iff)
  then show ?case
    by (simp add: traverseNode_CallExpression run_events_append call_enter_run_event
          call_exit_run_event split: sum.splits)
next
  case (NumberLiteral i v)
  then show ?case
    by (simp add: traverseNode_leaf call_enter_run_event call_exit_run_event split: sum.splits)
next
  case (StringLiteral i v)
  then show ?case
    by (simp add: traverseNode_leaf call_enter_run_event call_exit_run_event split: sum.splits)
next
  case Undefined
  then show ?case by simp
qed

lemma run_event_recorder:
  "run_event (recorder_for ens exs) e log = Inr (if heard ens exs e then log @ [e] else log)"
  by (cases e) (auto simp: run_event_def recorder_for_def record_enter_def record_exit_def)

lemma run_events_recorder:
  "run_events (recorder_for ens exs) es log = Inr (log @ filter (heard ens exs) es)"
  by (induction es arbitrary: log) (simp_all add: run_event_recorder)

section \<open>The transformer and the store\<close>

lemma push_simps [simp]:
  "properties (push a x s) = properties s"
  "contexts (push a x s) = contexts s"
  "length (arrays (push a x s)) = length (arrays s)"
  "a < length (arrays s) \<Longrightarrow> arrays (push a x s) ! a = arrays s ! a @ [x]"
  "b \<noteq> a \<Longrightarrow> arrays (push a x s) ! b = arrays s ! b"
  by (simp_all add: push_def contexts_def fun_eq_iff)

lemma assign_simps [simp]:
  "arrays (assign i f a s) = arrays s"
  "contexts (assign i ''_context'' a s) = (contexts s)(i \<mapsto> a)"
  "g \<noteq> ''_context'' \<Longrightarrow> properties (assign i ''_context'' a s) j g = properties s j g"
  by (simp_all add: assign_def contexts_def fun_eq_iff)

lemma expr_defined: "expr n \<Longrightarrow> defined n"
  by (induction n) (auto simp: list_all_iff)

lemma frame_refl: "frame s s"
  by (simp add: frame_def)

lemma frame_trans: "frame s s1 \<Longrightarrow> frame s1 s2 \<Longrightarrow> frame s s2"
  by (simp add: frame_def)

lemma clean_push:
  "clean s \<Longrightarrow> \<not> carries_context x \<Longrightarrow> clean (push a x s)"
proof -
  assume c: "clean s" and x: "\<not> carries_context x"
  show ?thesis
  proof (cases "a < length (arrays s)")
    case True
    have "list_all (\<lambda>x. \<not> carries_context x) (arrays s ! a)"
      using c True by (simp add: clean_def list_all_length)
    with x have "list_all (\<lambda>x. \<not> carries_context x) (arrays s ! a @ [x])" by simp
    with c show ?thesis
      unfolding clean_def push_def
      by (auto simp: list_all_iff dest!: set_update_subset_insert [THEN subsetD])
  next
    case False
    with c show ?thesis by (simp add: clean_def push_def list_update_beyond)
  qed
qed

lemma frame_push: "\<not> carries_context x \<Longrightarrow> frame s (push a x s)"
  by (simp add: frame_def clean_push)

lemma frame_literal_enter:
  "NumberLiteral_enter node parent s = Inr s' \<Longrightarrow> frame s s'"
  "StringLiteral_enter node parent s = Inr s' \<Longrightarrow> frame s s'"
  by (cases node; auto simp: frame_refl split: sum.splits intro!: frame_push)+

lemma frame_CallExpression_enter:
  assumes "CallExpression_enter node parent s = Inr s'"
  shows "frame s s'"
proof (cases node)
  case (CallExpression i name params)
  let ?s2 = "assign i ''_context'' (length (arrays s)) (s\<lparr>arrays := arrays s @ [[]]\<rparr>)"
  have 1: "frame s ?s2"
    by (simp add: frame_def clean_def)
  let ?c = "OCallExpression None (OIdentifier None name) (length (arrays s))"
  let ?x = "\<lambda>t. if t \<noteq> ''CallExpression'' then OExpressionStatement None ?c else ?c"
  from assms CallExpression obtain p where p: "parent = Some p"
    by (cases parent) (simp_all add: new_array_def Let_def)
  from assms CallExpression p obtain t where t: "type_of p = Some t"
    by (cases "type_of p") (simp_all add: new_array_def Let_def)
  from assms CallExpression p t obtain pa where pa: "parent_context (Some p) ?s2 = Inr pa"
    by (cases "parent_context (Some p) ?s2") (simp_all add: new_array_def Let_def)
  from assms CallExpression p t pa have s': "s' = push pa (?x t) ?s2"
    by (simp add: new_array_def Let_def)
  have x: "\<not> carries_context (?x t)" by simp
  from 1 frame_push [OF x, of ?s2 pa] show ?thesis unfolding s' by (rule frame_trans)
qed (use assms in \<open>simp_all add: frame_refl\<close>)

lemma visitor_simps [simp]:
  "transformer_visitor ''NumberLiteral'' = Some \<lparr>enter = Some NumberLiteral_enter, exit = None\<rparr>"
  "transformer_visitor ''StringLiteral'' = Some \<lparr>enter = Some StringLiteral_enter, exit = None\<rparr>"
  "transformer_visitor ''CallExpression'' = Some \<lparr>enter = Some CallExpression_enter, exit = None\<rparr>"
  "transformer_visitor ''Program'' = None"
  "transformer_visitor ''undefined'' = None"
  by (simp_all add: transformer_visitor_def)

lemma frame_run_event:
  "run_event transformer_visitor e s = Inr s' \<Longrightarrow> frame s s'"
proof (cases e)
  case (Enter node parent)
  assume "run_event transformer_visitor e s = Inr s'"
  with Enter show ?thesis
    by (cases node)
       (auto simp: run_event_def frame_refl
             simp del: NumberLiteral_enter.simps StringLiteral_enter.simps
               CallExpression_enter.simps
             intro: frame_literal_enter frame_CallExpression_enter)
next
  case (Exit node parent)
  assume "run_event transformer_visitor e s = Inr s'"
  with Exit show ?thesis
    by (cases node) (auto simp: run_event_def frame_refl)
qed

lemma frame_run_events:
  "run_events transformer_visitor es s = Inr s' \<Longrightarrow> frame s s'"
proof (induction es arbitrary: s)
  case Nil
  then show ?case by (simp add: frame_refl)
next
  case (Cons e es)
  then obtain s1 where 1: "run_event transformer_visitor e s = Inr s1"
    and 2: "run_events transformer_visitor es s1 = Inr s'"
    by (auto split: sum.splits)
  from frame_run_event [OF 1] Cons.IH [OF 2] show ?case by (rule frame_trans)
qed

lemma traverser_frame:
  "defined ast \<Longrightarrow> traverser ast transformer_visitor s = Inr s' \<Longrightarrow> frame s s'"
  by (simp add: traverser_def traverseNode_events frame_run_events)

lemma parent_context_Some:
  "oid_of p = Some pi \<Longrightarrow> contexts s pi = Some a \<Longrightarrow> parent_context (Some p) s = Inr a"
  by (simp add: parent_context_def contexts_def)

lemma built_Nil: "built in_call a [] s s"
  by (simp add: built_def)

lemma those_map_Some: "those (map (\<lambda>c. Some (f c)) cs) = Some (map f cs)"
  by (induction cs) simp_all

lemma built_literal:
  assumes "oid_of p = Some pi" "contexts s pi = Some a" "a < length (arrays s)"
  shows "traverseNode transformer_visitor (NumberLiteral i v) (Some p) s = Inr (push a (ONumberLiteral None v) s)"
    and "traverseNode transformer_visitor (StringLiteral i v) (Some p) s = Inr (push a (OStringLiteral None v) s)"
  using assms
  by (simp_all add: traverseNode_leaf call_enter_def call_exit_def parent_context_Some)

lemma built_length: "built in_call a cs s s' \<Longrightarrow> length (arrays s) \<le> length (arrays s')"
  by (simp add: built_def)

lemma built_context:
  "built in_call a cs s s' \<Longrightarrow> i \<notin> set (concat (map call_oids cs)) \<Longrightarrow>
   contexts s' i = contexts s i"
  by (simp add: built_def)

lemma agrees_mono:
  "agrees L xs arrs \<Longrightarrow> L \<le> L' \<Longrightarrow> agrees L' xs arrs"
  by (auto simp: agrees_def)

lemma agrees_back:
  assumes "agrees L (arrays s') arrs"
    and "length (arrays s1) \<le> length (arrays s')"
    and "\<forall>b < length (arrays s1). b \<noteq> a \<longrightarrow> arrays s' ! b = arrays s1 ! b"
    and "a < L"
  shows "agrees L (arrays s1) arrs"
  unfolding agrees_def
proof (intro conjI allI impI)
  show "length (arrays s1) \<le> length arrs"
    using assms(1,2) by (simp add: agrees_def)
next
  fix b assume b: "L \<le> b \<and> b < length (arrays s1)"
  then have "b < length (arrays s')" "b \<noteq> a" using assms(2,4) by auto
  then have "arrs ! b = arrays s' ! b" using assms(1) b by (simp add: agrees_def)
  also have "\<dots> = arrays s1 ! b" using assms(3) b \<open>b \<noteq> a\<close> by simp
  finally show "arrs ! b = arrays s1 ! b" .
qed

lemma built_trees:
  assumes "built in_call a cs s s'"
  obtains hs where "arrays s' ! a = arrays s ! a @ hs"
    and "\<And>arrs fuel. length (concat (map call_oids cs)) \<le> fuel \<Longrightarrow>
           agrees (length (arrays s)) (arrays s') arrs \<Longrightarrow>
           map (tree_of fuel arrs) hs = map (\<lambda>c. Some (lowered in_call c)) cs"
  using assms unfolding built_def by blast

lemma builtI:
  assumes "length (arrays s') = length (arrays s) + length (concat (map call_oids cs))"
    and "\<forall>b < length (arrays s). b \<noteq> a \<longrightarrow> arrays s' ! b = arrays s ! b"
    and "\<forall>i. i \<notin> set (concat (map call_oids cs)) \<longrightarrow> contexts s' i = contexts s i"
    and "\<forall>i \<in> set (concat (map call_oids cs)). contexts s' i \<noteq> None"
    and "arrays s' ! a = arrays s ! a @ hs"
    and "\<And>arrs fuel. length (concat (map call_oids cs)) \<le> fuel \<Longrightarrow>
           agrees (length (arrays s)) (arrays s') arrs \<Longrightarrow>
           map (tree_of fuel arrs) hs = map (\<lambda>c. Some (lowered in_call c)) cs"
  shows "built in_call a cs s s'"
  unfolding built_def using assms by blast

lemma built_Cons:
  assumes 1: "built in_call a [c] s s1" and 2: "built in_call a cs s1 s'"
    and a: "a < length (arrays s)"
  shows "built in_call a (c # cs) s s'"
proof -
  let ?L = "length (arrays s)" and ?L1 = "length (arrays s1)"
  from 1 have len1: "?L1 = ?L + length (call_oids c)"
    and fr1: "\<forall>b < ?L. b \<noteq> a \<longrightarrow> arrays s1 ! b = arrays s ! b"
    and cx1: "\<forall>i. i \<notin> set (call_oids c) \<longrightarrow> contexts s1 i = contexts s i"
    and df1: "\<forall>i \<in> set (call_oids c). contexts s1 i \<noteq> None"
    by (simp_all add: built_def)
  from built_trees [OF 1] obtain hs1 where hs1: "arrays s1 ! a = arrays s ! a @ hs1"
    and t1: "\<And>arrs fuel. length (concat (map call_oids [c])) \<le> fuel \<Longrightarrow> agrees ?L (arrays s1) arrs \<Longrightarrow>
               map (tree_of fuel arrs) hs1 = map (\<lambda>c. Some (lowered in_call c)) [c]"
    by blast
  from 2 have len2: "length (arrays s') = ?L1 + length (concat (map call_oids cs))"
    and fr2: "\<forall>b < ?L1. b \<noteq> a \<longrightarrow> arrays s' ! b = arrays s1 ! b"
    and cx2: "\<forall>i. i \<notin> set (concat (map call_oids cs)) \<longrightarrow> contexts s' i = contexts s1 i"
    and df2: "\<forall>i \<in> set (concat (map call_oids cs)). contexts s' i \<noteq> None"
    by (simp_all add: built_def)
  from built_trees [OF 2] obtain hs2 where hs2: "arrays s' ! a = arrays s1 ! a @ hs2"
    and t2: "\<And>arrs fuel. length (concat (map call_oids cs)) \<le> fuel \<Longrightarrow> agrees ?L1 (arrays s') arrs \<Longrightarrow>
               map (tree_of fuel arrs) hs2 = map (\<lambda>c. Some (lowered in_call c)) cs"
    by blast
  have A: "length (arrays s') = ?L + length (concat (map call_oids (c # cs)))"
    using len1 len2 by simp
  have B: "\<forall>b < ?L. b \<noteq> a \<longrightarrow> arrays s' ! b = arrays s ! b"
    using fr1 fr2 len1 by auto
  have C: "\<forall>i. i \<notin> set (concat (map call_oids (c # cs))) \<longrightarrow> contexts s' i = contexts s i"
    using cx1 cx2 by auto
  have D: "\<forall>i \<in> set (concat (map call_oids (c # cs))). contexts s' i \<noteq> None"
  proof
    fix i assume "i \<in> set (concat (map call_oids (c # cs)))"
    then consider "i \<in> set (concat (map call_oids cs))" | "i \<notin> set (concat (map call_oids cs))" "i \<in> set (call_oids c)"
      by auto
    then show "contexts s' i \<noteq> None"
    proof cases
      case 1 then show ?thesis using df2 by blast
    next
      case 2 then show ?thesis using df1 cx2 by auto
    qed
  qed
  have E: "arrays s' ! a = arrays s ! a @ (hs1 @ hs2)"
    using hs1 hs2 by simp
  have F: "map (tree_of fuel arrs) (hs1 @ hs2) = map (\<lambda>c. Some (lowered in_call c)) (c # cs)"
    if f: "length (concat (map call_oids (c # cs))) \<le> fuel" and ag: "agrees ?L (arrays s') arrs" for arrs fuel
  proof -
    have "length (arrays s1) \<le> length (arrays s')"
      using len2 by simp
    with ag have "agrees ?L (arrays s1) arrs"
      using fr2 a by (rule agrees_back)
    moreover have "length (concat (map call_oids [c])) \<le> fuel"
      using f by simp
    ultimately have x: "map (tree_of fuel arrs) hs1 = map (\<lambda>c. Some (lowered in_call c)) [c]"
      by (intro t1)
    have "?L \<le> ?L1" using len1 by simp
    with ag have "agrees ?L1 (arrays s') arrs"
      by (rule agrees_mono)
    moreover have "length (concat (map call_oids cs)) \<le> fuel"
      using f by simp
    ultimately have "map (tree_of fuel arrs) hs2 = map (\<lambda>c. Some (lowered in_call c)) cs"
      by (intro t2)
    with x show ?thesis by simp
  qed
  show ?thesis
    using A B C D E F by (rule builtI)
qed

lemma traverseArray_built:
  assumes node: "\<And>c s. c \<in> set cs \<Longrightarrow> contexts s pi = Some a \<Longrightarrow> a < length (arrays s) \<Longrightarrow>
            \<exists>s'. traverseNode transformer_visitor c (Some p) s = Inr s' \<and> built in_call a [c] s s'"
    and "contexts s pi = Some a" "a < length (arrays s)"
    and "pi \<notin> set (concat (map call_oids cs))"
  shows "\<exists>s'. traverseArray transformer_visitor cs (Some p) s = Inr s' \<and> built in_call a cs s s'"
  using assms
proof (induction cs arbitrary: s)
  case Nil
  then show ?case by (simp add: built_Nil)
next
  case (Cons c cs)
  from Cons.prems(1) [of c s] Cons.prems(2,3)
  obtain s1 where s1: "traverseNode transformer_visitor c (Some p) s = Inr s1" "built in_call a [c] s s1"
    by auto
  have cx: "contexts s1 pi = Some a"
    using built_context [OF s1(2), of pi] Cons.prems(2,4) by simp
  have le: "a < length (arrays s1)"
    using built_length [OF s1(2)] Cons.prems(3) by simp
  have "\<exists>s'. traverseArray transformer_visitor cs (Some p) s1 = Inr s' \<and> built in_call a cs s1 s'"
  proof (rule Cons.IH)
    show "\<exists>s'. traverseNode transformer_visitor c' (Some p) s = Inr s' \<and> built in_call a [c'] s s'"
      if "c' \<in> set cs" "contexts s pi = Some a" "a < length (arrays s)" for c' s
      using Cons.prems(1) [of c' s] that by simp
    show "contexts s1 pi = Some a" by (rule cx)
    show "a < length (arrays s1)" by (rule le)
    show "pi \<notin> set (concat (map call_oids cs))" using Cons.prems(4) by simp
  qed
  then obtain s' where s': "traverseArray transformer_visitor cs (Some p) s1 = Inr s'" "built in_call a cs s1 s'"
    by auto
  from s1(1) s'(1) have "traverseArray transformer_visitor (c # cs) (Some p) s = Inr s'" by simp
  moreover have "built in_call a (c # cs) s s'"
    using s1(2) s'(2) Cons.prems(3) by (rule built_Cons)
  ultimately show ?case by blast
qed

lemma built_frame:
  "built in_call a cs s s' \<Longrightarrow> b < length (arrays s) \<Longrightarrow> b \<noteq> a \<Longrightarrow>
   arrays s' ! b = arrays s ! b"
  by (simp add: built_def)

lemma built_size:
  "built in_call a cs s s' \<Longrightarrow>
   length (arrays s') = length (arrays s) + length (concat (map call_oids cs))"
  by (simp add: built_def)

lemma built_defined:
  "built in_call a cs s s' \<Longrightarrow> i \<in> set (concat (map call_oids cs)) \<Longrightarrow>
   contexts s' i \<noteq> None"
  unfolding built_def by blast

lemma built_push_literal:
  assumes "a < length (arrays s)" "call_oids n = []"
    and "\<And>fuel arrs. tree_of fuel arrs h = Some (lowered in_call n)"
  shows "built in_call a [n] s (push a h s)"
proof (rule builtI [where hs = "[h]"])
  show "\<forall>b<length (arrays s). b \<noteq> a \<longrightarrow> arrays (push a h s) ! b = arrays s ! b"
    by simp
qed (use assms in simp_all)

lemma distinct_concat_map:
  "distinct (concat (map f xs)) \<Longrightarrow> x \<in> set xs \<Longrightarrow> distinct (f x)"
  by (induction xs) auto

lemma CallExpression_enter_eq:
  assumes "oid_of p = Some pi" "pi \<noteq> i" "contexts s pi = Some a"
  shows "CallExpression_enter (CallExpression i name params) (Some p) s =
     Inr (entered i a
           (if type_of p = Some ''CallExpression''
            then OCallExpression None (OIdentifier None name) (length (arrays s))
            else OExpressionStatement None
                   (OCallExpression None (OIdentifier None name) (length (arrays s)))) s)"
  using assms
  by (cases p) (simp_all add: new_array_def parent_context_def entered_def assign_def contexts_def)

lemma entered_simps:
  "length (arrays (entered i a h s)) = Suc (length (arrays s))"
  "contexts (entered i a h s) = (contexts s)(i \<mapsto> length (arrays s))"
  "arrays (entered i a h s) ! length (arrays s) = (if a = length (arrays s) then [h] else [])"
  "b < length (arrays s) \<Longrightarrow> arrays (entered i a h s) ! b = (if b = a then arrays s ! b @ [h] else arrays s ! b)"
  by (simp_all add: entered_def push_def assign_def contexts_def fun_eq_iff nth_append
        nth_list_update)

lemma tree_of_call:
  assumes "L < length arrs" "those (map (tree_of fuel arrs) (arrs ! L)) = Some ts"
  shows "tree_of (Suc fuel) arrs (OCallExpression None (OIdentifier None name) L) = Some (TCallExpression (TIdentifier name) ts)"
  using assms by simp

lemma traverseNode_built:
  "expr n \<Longrightarrow> distinct (call_oids n) \<Longrightarrow> pi \<notin> set (call_oids n) \<Longrightarrow> oid_of p = Some pi \<Longrightarrow>
   (type_of p = Some ''CallExpression'') = in_call \<Longrightarrow> contexts s pi = Some a \<Longrightarrow>
   a < length (arrays s) \<Longrightarrow>
   \<exists>s'. traverseNode transformer_visitor n (Some p) s = Inr s' \<and> built in_call a [n] s s'"
proof (induction n arbitrary: in_call p pi a s)
  case (NumberLiteral i v)
  have "traverseNode transformer_visitor (NumberLiteral i v) (Some p) s =
          Inr (push a (ONumberLiteral None v) s)"
    using NumberLiteral.prems(4,6,7) by (rule built_literal(1))
  moreover have "built in_call a [NumberLiteral i v] s (push a (ONumberLiteral None v) s)"
    using NumberLiteral.prems(7) by (rule built_push_literal) simp_all
  ultimately show ?case by blast
next
  case (StringLiteral i v)
  have "traverseNode transformer_visitor (StringLiteral i v) (Some p) s =
          Inr (push a (OStringLiteral None v) s)"
    using StringLiteral.prems(4,6,7) by (rule built_literal(2))
  moreover have "built in_call a [StringLiteral i v] s (push a (OStringLiteral None v) s)"
    using StringLiteral.prems(7) by (rule built_push_literal) simp_all
  ultimately show ?case by blast
next
  case (CallExpression i name params)
  let ?n = "CallExpression i name params"
  let ?L = "length (arrays s)"
  let ?call = "OCallExpression None (OIdentifier None name) ?L"
  let ?h = "if type_of p = Some ''CallExpression'' then ?call else OExpressionStatement None ?call"
  let ?s3 = "entered i a ?h s"
  have pi: "pi \<noteq> i" using CallExpression.prems(3) by simp
  have inot: "i \<notin> set (concat (map call_oids params))" using CallExpression.prems(2) by simp
  have enter: "CallExpression_enter ?n (Some p) s = Inr ?s3"
    by (rule CallExpression_enter_eq [OF CallExpression.prems(4) pi CallExpression.prems(6)])
  have "\<exists>s'. traverseArray transformer_visitor params (Some ?n) ?s3 = Inr s' \<and> built True ?L params ?s3 s'"
  proof (rule traverseArray_built [where pi = i])
    fix c and t :: tstate
    assume c: "c \<in> set params" and cx: "contexts t i = Some ?L" and l: "?L < length (arrays t)"
    show "\<exists>s'. traverseNode transformer_visitor c (Some ?n) t = Inr s' \<and> built True ?L [c] t s'"
    proof (rule CallExpression.IH [OF c _ _ _ _ _ cx l])
      show "expr c" using CallExpression.prems(1) c by (simp add: list_all_iff)
      show "distinct (call_oids c)"
        using CallExpression.prems(2) c by (auto intro: distinct_concat_map)
      show "i \<notin> set (call_oids c)" using inot c by auto
      show "oid_of ?n = Some i" by simp
      show "(type_of ?n = Some ''CallExpression'') = True" by simp
    qed
  next
    show "contexts ?s3 i = Some ?L" by (simp add: entered_simps)
    show "?L < length (arrays ?s3)" by (simp add: entered_simps)
    show "i \<notin> set (concat (map call_oids params))" by (rule inot)
  qed
  then obtain s' where ta: "traverseArray transformer_visitor params (Some ?n) ?s3 = Inr s'"
    and b: "built True ?L params ?s3 s'" by blast
  have tn: "traverseNode transformer_visitor ?n (Some p) s = Inr s'"
    using enter ta by (simp add: traverseNode_CallExpression call_enter_def call_exit_def)
  have aL: "a < ?L" by (rule CallExpression.prems(7))
  from built_trees [OF b] obtain hs where hs: "arrays s' ! ?L = arrays ?s3 ! ?L @ hs"
    and trees: "\<And>arrs fuel. length (concat (map call_oids params)) \<le> fuel \<Longrightarrow>
           agrees (length (arrays ?s3)) (arrays s') arrs \<Longrightarrow>
           map (tree_of fuel arrs) hs = map (\<lambda>c. Some (lowered True c)) params"
    by blast
  have hs': "arrays s' ! ?L = hs" using hs aL by (simp add: entered_simps)
  have "built in_call a [?n] s s'"
  proof (rule builtI [where hs = "[?h]"])
    show "length (arrays s') = ?L + length (concat (map call_oids [?n]))"
      using built_size [OF b] by (simp add: entered_simps)
    show "\<forall>b<?L. b \<noteq> a \<longrightarrow> arrays s' ! b = arrays s ! b"
      using built_frame [OF b] by (simp add: entered_simps)
    show "\<forall>j. j \<notin> set (concat (map call_oids [?n])) \<longrightarrow> contexts s' j = contexts s j"
      using built_context [OF b] by (simp add: entered_simps)
    show "\<forall>j\<in>set (concat (map call_oids [?n])). contexts s' j \<noteq> None"
    proof
      fix j assume "j \<in> set (concat (map call_oids [?n]))"
      then consider "j \<in> set (concat (map call_oids params))" | "j = i" by auto
      then show "contexts s' j \<noteq> None"
      proof cases
        case 1 then show ?thesis by (rule built_defined [OF b])
      next
        case 2 then show ?thesis using built_context [OF b inot] by (simp add: entered_simps)
      qed
    qed
    show "arrays s' ! a = arrays s ! a @ [?h]"
      using built_frame [OF b, of a] aL by (simp add: entered_simps)
    show "map (tree_of fuel arrs) [?h] = map (\<lambda>c. Some (lowered in_call c)) [?n]"
      if f: "length (concat (map call_oids [?n])) \<le> fuel" and ag: "agrees ?L (arrays s') arrs" for arrs fuel
    proof -
      from f obtain f' where f': "fuel = Suc f'" "length (concat (map call_oids params)) \<le> f'"
        by (cases fuel) auto
      have Ls: "?L < length (arrays s')" using built_size [OF b] by (simp add: entered_simps)
      from ag Ls have "arrs ! ?L = arrays s' ! ?L" "?L < length arrs"
        by (auto simp: agrees_def)
      with hs' have arrL: "arrs ! ?L = hs" by simp
      have "agrees (length (arrays ?s3)) (arrays s') arrs"
        using ag by (rule agrees_mono) (simp add: entered_simps)
      with f'(2) have "map (tree_of f' arrs) hs = map (\<lambda>c. Some (lowered True c)) params"
        by (rule trees)
      then have "those (map (tree_of f' arrs) (arrs ! ?L)) = Some (map (lowered True) params)"
        using arrL by (simp add: those_map_Some)
      with \<open>?L < length arrs\<close>
      have "tree_of (Suc f') arrs ?call = Some (TCallExpression (TIdentifier name) (map (lowered True) params))"
        by (rule tree_of_call)
      then show ?thesis using f'(1) CallExpression.prems(5) by auto
    qed
  qed
  with tn show ?case by blast
qed simp_all

lemma transformer_Program:
  assumes "well_formed (Program i body)"
  shows "\<exists>s. transformer (Program i body) = Inr (OProgram None 0, s) \<and>
             target_tree (OProgram None 0, s) = Some (TProgram (map (lowered False) body)) \<and>
             dom (contexts s) = set (i # concat (map call_oids body)) \<and>
             length (arrays s) = Suc (length (concat (map call_oids body))) \<and>
             frame \<lparr>properties = (\<lambda>i. Map.empty), arrays = [[]]\<rparr> s"
proof -
  let ?p = "Program i body"
  let ?s1 = "\<lparr>properties = (\<lambda>i. Map.empty), arrays = [[]]\<rparr>"
  let ?s2 = "assign i ''_context'' 0 ?s1"
  from assms have ex: "list_all expr body" and di: "distinct (concat (map call_oids body))"
    and inot: "i \<notin> set (concat (map call_oids body))" by simp_all
  have "\<exists>s'. traverseArray transformer_visitor body (Some ?p) ?s2 = Inr s' \<and> built False 0 body ?s2 s'"
  proof (rule traverseArray_built [where pi = i])
    fix c and t :: tstate
    assume c: "c \<in> set body" and cx: "contexts t i = Some 0" and l: "0 < length (arrays t)"
    show "\<exists>s'. traverseNode transformer_visitor c (Some ?p) t = Inr s' \<and> built False 0 [c] t s'"
    proof (rule traverseNode_built [OF _ _ _ _ _ cx l])
      show "expr c" using ex c by (simp add: list_all_iff)
      show "distinct (call_oids c)" using di c by (rule distinct_concat_map)
      show "i \<notin> set (call_oids c)" using inot c by auto
      show "oid_of ?p = Some i" by simp
      show "(type_of ?p = Some ''CallExpression'') = False" by simp
    qed
  qed (use inot in simp_all)
  then obtain s' where ta: "traverseArray transformer_visitor body (Some ?p) ?s2 = Inr s'"
    and b: "built False 0 body ?s2 s'" by blast
  have trv: "traverser ?p transformer_visitor ?s2 = Inr s'"
    using ta by (simp add: traverser_def traverseNode_Program call_enter_def call_exit_def)
  then have tr: "transformer ?p = Inr (OProgram None 0, s')"
    by (simp add: transformer_def new_array_def)
  have "defined ?p" using ex by (simp add: list_all_iff expr_defined)
  then have "frame ?s2 s'" using trv by (rule traverser_frame)
  moreover have "frame ?s1 ?s2"
    by (simp add: frame_def clean_def)
  ultimately have fr: "frame ?s1 s'" by (rule frame_trans [rotated])
  from built_trees [OF b] obtain hs where hs: "arrays s' ! 0 = arrays ?s2 ! 0 @ hs"
    and trees: "\<And>arrs fuel. length (concat (map call_oids body)) \<le> fuel \<Longrightarrow>
           agrees (length (arrays ?s2)) (arrays s') arrs \<Longrightarrow>
           map (tree_of fuel arrs) hs = map (\<lambda>c. Some (lowered False c)) body"
    by blast
  have len: "length (arrays s') = Suc (length (concat (map call_oids body)))"
    using built_size [OF b] by simp
  have "map (tree_of (length (concat (map call_oids body))) (arrays s')) hs = map (\<lambda>c. Some (lowered False c)) body"
    by (rule trees) (simp_all add: agrees_def)
  then have tt: "target_tree (OProgram None 0, s') = Some (TProgram (map (lowered False) body))"
    using hs len by (simp add: target_tree_def those_map_Some)
  have "contexts s' j \<noteq> None \<longleftrightarrow> j \<in> set (i # concat (map call_oids body))" for j
  proof (cases "j \<in> set (concat (map call_oids body))")
    case True
    then show ?thesis using built_defined [OF b] by simp
  next
    case False
    have "contexts ?s1 j = None" by (simp add: contexts_def)
    with False show ?thesis using built_context [OF b False] by simp
  qed
  then have "dom (contexts s') = set (i # concat (map call_oids body))"
    by (auto simp: dom_def)
  with tr tt len fr show ?thesis by blast
qed

section \<open>Well-formed input through the stages\<close>

text \<open>
  The tokenizer reads the text of a valid expression into its tokens, wherever the text
  stands in the input; the parser reads the tokens into a tree whose image is the target
  tree of the expression; and the code generator writes the target tree as the
  rendering of the expression.
\<close>

lemma is_space_not_paren: "is_space c \<Longrightarrow> c \<noteq> CHR ''('' \<and> c \<noteq> CHR '')''"
  by (auto simp: is_space_def)

lemma tokenizer_loop_space:
  "current < length input \<Longrightarrow> is_space (input ! current) \<Longrightarrow>
   tokenizer_loop_on eng input current tokens = tokenizer_loop_on eng input (current + 1) tokens"
  by (subst tokenizer_loop_on.simps) (simp add: is_space_not_paren)

lemma tokenizer_loop_paren:
  "current < length input \<Longrightarrow> input ! current = CHR ''('' \<or> input ! current = CHR '')'' \<Longrightarrow>
   tokenizer_loop input current tokens =
     tokenizer_loop input (current + 1) (tokens @ [\<lparr>ttype = Paren, tvalue = [input ! current]\<rparr>])"
  by (subst tokenizer_loop_on.simps) auto

lemma is_letter_not_other:
  "is_letter c \<Longrightarrow>
   c \<noteq> CHR ''('' \<and> c \<noteq> CHR '')'' \<and> \<not> is_space c \<and> \<not> is_digit c \<and> c \<noteq> CHR 0x22"
  by (auto simp: is_letter_def is_space_def is_digit_def)

lemma tokenizer_loop_name:
  "current < length input \<Longrightarrow> is_letter (input ! current) \<Longrightarrow>
   name_loop input current [] (char_at input current) = Some (Inr (current', v)) \<Longrightarrow>
   tokenizer_loop input current tokens =
     tokenizer_loop input current' (tokens @ [\<lparr>ttype = Name, tvalue = v\<rparr>])"
  by (subst tokenizer_loop_on.simps) (simp add: is_letter_not_other)

lemma skip_spaces:
  "list_all is_space g \<Longrightarrow> input = pre @ g @ post \<Longrightarrow>
   tokenizer_loop_on eng input (length pre) toks =
     tokenizer_loop_on eng input (length pre + length g) toks"
proof (induction g arbitrary: pre)
  case Nil
  then show ?case by simp
next
  case (Cons c g)
  have "tokenizer_loop_on eng input (length pre) toks =
          tokenizer_loop_on eng input (length pre + 1) toks"
    by (rule tokenizer_loop_space) (use Cons.prems in simp_all)
  moreover have "tokenizer_loop_on eng input (length (pre @ [c])) toks =
          tokenizer_loop_on eng input (length (pre @ [c]) + length g) toks"
    by (rule Cons.IH) (use Cons.prems in simp_all)
  ultimately show ?case by simp
qed

lemma read_paren:
  "input = pre @ [c] @ post \<Longrightarrow> c = CHR ''('' \<or> c = CHR '')'' \<Longrightarrow>
   tokenizer_loop input (length pre) toks =
     tokenizer_loop input (length pre + 1) (toks @ [\<lparr>ttype = Paren, tvalue = [c]\<rparr>])"
  using tokenizer_loop_paren [of "length pre" input toks] by auto

lemma read_digit:
  "input = pre @ [d] @ post \<Longrightarrow> is_digit d \<Longrightarrow>
   tokenizer_loop input (length pre) toks =
     tokenizer_loop input (length pre + 1) (toks @ [\<lparr>ttype = Number, tvalue = [d]\<rparr>])"
  using tokenizer_loop_digit [of "length pre" input toks] by auto

lemma read_quoted:
  assumes "input = pre @ ([CHR 0x22] @ c @ [CHR 0x22]) @ post" "CHR 0x22 \<notin> set c"
  shows "tokenizer_loop input (length pre) toks =
     tokenizer_loop input (length pre + (length c + 2)) (toks @ [\<lparr>ttype = String, tvalue = c\<rparr>])"
proof -
  let ?cur = "length pre"
  have "string_loop input (?cur + 1) [] (char_at input (?cur + 1)) =
          Some (Inr (?cur + 1 + length c, [] @ take (length c) (drop (?cur + 1) input)))"
  proof (rule string_loop_reads)
    show "?cur + 1 + length c < length input" using assms(1) by simp
    show "\<forall>j<length c. input ! (?cur + 1 + j) \<noteq> CHR 0x22"
      using assms by (auto simp: nth_append nth_Cons' dest: nth_mem)
    show "input ! (?cur + 1 + length c) = CHR 0x22"
      using assms(1) by (simp add: nth_append nth_Cons')
  qed
  moreover have "take (length c) (drop (?cur + 1) input) = c"
    using assms(1) by simp
  ultimately have "string_loop input (?cur + 1) [] (char_at input (?cur + 1)) =
          Some (Inr (?cur + 1 + length c, c))"
    by simp
  then have "tokenizer_loop input ?cur toks =
       tokenizer_loop input (?cur + 1 + length c + 1) (toks @ [\<lparr>ttype = String, tvalue = c\<rparr>])"
    by (intro tokenizer_loop_quote) (use assms(1) in simp_all)
  then show ?thesis by (simp add: add.assoc)
qed

lemma read_name:
  assumes "input = pre @ name @ x # post" "name \<noteq> []" "list_all is_letter name" "\<not> is_letter x"
  shows "tokenizer_loop input (length pre) toks =
     tokenizer_loop input (length pre + length name) (toks @ [\<lparr>ttype = Name, tvalue = name\<rparr>])"
proof -
  let ?cur = "length pre"
  have "name_loop input ?cur [] (char_at input ?cur) =
          Some (Inr (?cur + length name, [] @ take (length name) (drop ?cur input)))"
  proof (rule name_loop_reads)
    show "?cur + length name < length input" using assms(1) by simp
    show "\<forall>j<length name. is_letter (input ! (?cur + j))"
      using assms(1,3) by (simp add: nth_append list_all_length)
    show "\<not> is_letter (input ! (?cur + length name))"
      using assms(1,4) by (simp add: nth_append)
  qed
  moreover have "take (length name) (drop ?cur input) = name"
    using assms(1) by simp
  ultimately have "name_loop input ?cur [] (char_at input ?cur) =
          Some (Inr (?cur + length name, name))"
    by simp
  moreover have "?cur < length input" "is_letter (input ! ?cur)"
    using assms(1,2,3) by (cases name; simp add: nth_append)+
  ultimately show ?thesis by (intro tokenizer_loop_name)
qed

lemma is_space_not_letter: "is_space c \<Longrightarrow> \<not> is_letter c"
  by (auto simp: is_space_def is_letter_def)

lemma is_digit_not_letter: "is_digit c \<Longrightarrow> \<not> is_letter c"
  by (auto simp: is_digit_def is_letter_def)

lemma not_letter_simps [simp]:
  "\<not> is_letter CHR 0x22" "\<not> is_letter CHR ''(''" "\<not> is_letter CHR '')''"
  by (simp_all add: is_letter_def)

lemma source_text_head:
  "valid e \<Longrightarrow> \<exists>x rest. source_text e = x # rest \<and> \<not> is_letter x"
proof (cases e)
  case (Digit g d)
  assume "valid e"
  with Digit show ?thesis
    by (cases g) (auto simp: is_space_not_letter is_digit_not_letter)
next
  case (Quoted g c)
  assume "valid e"
  with Quoted show ?thesis
    by (cases g) (auto simp: is_space_not_letter)
next
  case (Call g w name args w')
  assume "valid e"
  with Call show ?thesis
    by (cases g) (auto simp: is_space_not_letter)
qed

lemma after_name:
  assumes "list_all valid args" "list_all is_space w'"
  shows "\<exists>x rest. concat (map source_text args) @ w' @ '')'' = x # rest \<and> \<not> is_letter x"
proof (cases args)
  case Nil
  with assms(2) show ?thesis
    by (cases w') (auto simp: is_space_not_letter)
next
  case (Cons a as)
  with assms(1) have "valid a" by simp
  from source_text_head [OF this] Cons show ?thesis by auto
qed

lemma tokens_run_list:
  assumes el: "\<And>e pre post toks. e \<in> set es \<Longrightarrow>
            tokenizer_loop (pre @ source_text e @ post) (length pre) toks =
              tokenizer_loop (pre @ source_text e @ post) (length pre + length (source_text e))
                (toks @ tokens_of e)"
  shows "tokenizer_loop (pre @ concat (map source_text es) @ post) (length pre) toks =
           tokenizer_loop (pre @ concat (map source_text es) @ post)
             (length pre + length (concat (map source_text es)))
             (toks @ concat (map tokens_of es))"
  using el
proof (induction es arbitrary: pre toks)
  case Nil
  then show ?case by simp
next
  case (Cons e es)
  let ?input = "pre @ concat (map source_text (e # es)) @ post"
  have "tokenizer_loop (pre @ source_text e @ (concat (map source_text es) @ post)) (length pre) toks =
          tokenizer_loop (pre @ source_text e @ (concat (map source_text es) @ post))
            (length pre + length (source_text e)) (toks @ tokens_of e)"
    by (rule Cons.prems) simp
  then have 1: "tokenizer_loop ?input (length pre) toks =
          tokenizer_loop ?input (length (pre @ source_text e)) (toks @ tokens_of e)"
    by simp
  have "tokenizer_loop ((pre @ source_text e) @ concat (map source_text es) @ post)
            (length (pre @ source_text e)) (toks @ tokens_of e) =
          tokenizer_loop ((pre @ source_text e) @ concat (map source_text es) @ post)
            (length (pre @ source_text e) + length (concat (map source_text es)))
            ((toks @ tokens_of e) @ concat (map tokens_of es))"
    by (rule Cons.IH) (simp add: Cons.prems)
  then have 2: "tokenizer_loop ?input (length (pre @ source_text e)) (toks @ tokens_of e) =
          tokenizer_loop ?input (length pre + length (concat (map source_text (e # es))))
            (toks @ concat (map tokens_of (e # es)))"
    by (simp add: add.assoc)
  from 1 2 show ?case by simp
qed

lemma tokens_run:
  "valid e \<Longrightarrow>
   tokenizer_loop (pre @ source_text e @ post) (length pre) toks =
     tokenizer_loop (pre @ source_text e @ post) (length pre + length (source_text e))
       (toks @ tokens_of e)"
proof (induction e arbitrary: pre post toks)
  case (Digit g d)
  let ?input = "pre @ source_text (Digit g d) @ post"
  have "tokenizer_loop ?input (length pre) toks = tokenizer_loop ?input (length pre + length g) toks"
    by (rule skip_spaces [where post = "[d] @ post"]) (use Digit in simp_all)
  also have "\<dots> = tokenizer_loop ?input (length (pre @ g)) toks" by simp
  also have "\<dots> = tokenizer_loop ?input (length (pre @ g) + 1)
                      (toks @ [\<lparr>ttype = Number, tvalue = [d]\<rparr>])"
    by (rule read_digit [where post = post]) (use Digit in simp_all)
  finally show ?case by (simp add: add.assoc)
next
  case (Quoted g c)
  let ?input = "pre @ source_text (Quoted g c) @ post"
  have "tokenizer_loop ?input (length pre) toks = tokenizer_loop ?input (length pre + length g) toks"
    by (rule skip_spaces [where post = "[CHR 0x22] @ c @ [CHR 0x22] @ post"]) (use Quoted in simp_all)
  also have "\<dots> = tokenizer_loop ?input (length (pre @ g)) toks" by simp
  also have "\<dots> = tokenizer_loop ?input (length (pre @ g) + (length c + 2))
                      (toks @ [\<lparr>ttype = String, tvalue = c\<rparr>])"
    by (rule read_quoted [where post = post]) (use Quoted in simp_all)
  finally show ?case by (simp add: add.assoc)
next
  case (Call g w name args w')
  let ?A = "concat (map source_text args)"
  let ?input = "pre @ source_text (Call g w name args w') @ post"
  let ?p1 = "pre @ g"
  let ?p2 = "?p1 @ ''(''"
  let ?p3 = "?p2 @ w"
  let ?p4 = "?p3 @ name"
  let ?p5 = "?p4 @ ?A"
  let ?p6 = "?p5 @ w'"
  let ?t2 = "toks @ [\<lparr>ttype = Paren, tvalue = ''(''\<rparr>]"
  let ?t4 = "?t2 @ [\<lparr>ttype = Name, tvalue = name\<rparr>]"
  let ?t5 = "?t4 @ concat (map tokens_of args)"
  from Call.prems have v: "list_all is_space g" "list_all is_space w" "name \<noteq> []"
    "list_all is_letter name" "list_all valid args" "list_all is_space w'"
    by simp_all
  from after_name [OF v(5,6)] obtain x rest where
    rest: "?A @ w' @ '')'' = x # rest" and x: "\<not> is_letter x"
    by blast
  have 1: "tokenizer_loop ?input (length pre) toks = tokenizer_loop ?input (length ?p1) toks"
    using skip_spaces [OF v(1), of ?input pre "''('' @ w @ name @ ?A @ w' @ '')'' @ post" unbounded toks]
    by (simp add: ac_simps)
  have 2: "tokenizer_loop ?input (length ?p1) toks = tokenizer_loop ?input (length ?p2) ?t2"
    using read_paren [of ?input ?p1 "CHR ''(''" "w @ name @ ?A @ w' @ '')'' @ post" toks]
    by (simp add: ac_simps)
  have 3: "tokenizer_loop ?input (length ?p2) ?t2 = tokenizer_loop ?input (length ?p3) ?t2"
    using skip_spaces [OF v(2), of ?input ?p2 "name @ ?A @ w' @ '')'' @ post" unbounded ?t2]
    by (simp add: ac_simps)
  have "?input = ?p3 @ name @ x # (rest @ post)"
    using rest by simp
  from read_name [OF this v(3,4) x, of ?t2]
  have 4: "tokenizer_loop ?input (length ?p3) ?t2 = tokenizer_loop ?input (length ?p4) ?t4"
    by (simp add: ac_simps)
  have "tokenizer_loop (?p4 @ ?A @ (w' @ '')'' @ post)) (length ?p4) ?t4 =
          tokenizer_loop (?p4 @ ?A @ (w' @ '')'' @ post)) (length ?p4 + length ?A)
            (?t4 @ concat (map tokens_of args))"
  proof (rule tokens_run_list)
    fix e pre post toks
    assume "e \<in> set args"
    with v(5) have "valid e" by (simp add: list_all_iff)
    with \<open>e \<in> set args\<close>
    show "tokenizer_loop (pre @ source_text e @ post) (length pre) toks =
            tokenizer_loop (pre @ source_text e @ post) (length pre + length (source_text e))
              (toks @ tokens_of e)"
      by (rule Call.IH)
  qed
  then have 5: "tokenizer_loop ?input (length ?p4) ?t4 = tokenizer_loop ?input (length ?p5) ?t5"
    by (simp add: ac_simps)
  have 6: "tokenizer_loop ?input (length ?p5) ?t5 = tokenizer_loop ?input (length ?p6) ?t5"
    using skip_spaces [OF v(6), of ?input ?p5 "'')'' @ post" unbounded ?t5]
    by (simp add: ac_simps)
  have 7: "tokenizer_loop ?input (length ?p6) ?t5 =
             tokenizer_loop ?input (length ?p6 + 1) (?t5 @ [\<lparr>ttype = Paren, tvalue = '')''\<rparr>])"
    using read_paren [of ?input ?p6 "CHR '')''" post ?t5]
    by (simp add: ac_simps)
  from 1 2 3 4 5 6 7
  have "tokenizer_loop ?input (length pre) toks =
          tokenizer_loop ?input (length ?p6 + 1) (?t5 @ [\<lparr>ttype = Paren, tvalue = '')''\<rparr>])"
    by (simp only:)
  then show ?case by (simp add: add.assoc)
qed

lemma tokenizer_of_text:
  assumes "list_all valid items" "list_all is_space w"
  shows "tokenizer (concat (map source_text items) @ w) = Some (Inr (concat (map tokens_of items)))"
proof -
  let ?T = "concat (map source_text items)"
  have "tokenizer_loop ([] @ ?T @ w) (length ([] :: string)) [] =
          tokenizer_loop ([] @ ?T @ w) (length ([] :: string) + length ?T)
            ([] @ concat (map tokens_of items))"
  proof (rule tokens_run_list)
    fix e pre post toks
    assume "e \<in> set items"
    with assms(1) have "valid e" by (simp add: list_all_iff)
    then show "tokenizer_loop (pre @ source_text e @ post) (length pre) toks =
            tokenizer_loop (pre @ source_text e @ post) (length pre + length (source_text e))
              (toks @ tokens_of e)"
      by (rule tokens_run)
  qed
  then have "tokenizer_loop (?T @ w) 0 [] =
               tokenizer_loop (?T @ w) (length ?T) (concat (map tokens_of items))"
    by simp
  also have "\<dots> = tokenizer_loop (?T @ w) (length ?T + length w) (concat (map tokens_of items))"
    using skip_spaces [OF assms(2), of "?T @ w" ?T "[]"] by simp
  also have "\<dots> = Some (Inr (concat (map tokens_of items)))"
    by (rule tokenizer_loop_done) simp
  finally show ?thesis by (simp add: tokenizer_on_def)
qed

lemma compile_of_parsed:
  assumes tok: "tokenizer_on eng input = Some (Inr tokens)"
    and p: "parser_on eng tokens = Some (Inr p)"
  shows "compile_on eng input = Some (Inr (codeGenerator (lowered False p)))"
proof -
  from parser_result [OF p] have wf: "well_formed p" by simp
  from wf obtain i body where pb: "p = Program i body" by (cases p) simp_all
  from transformer_Program [OF wf [unfolded pb]] obtain s where
    "transformer p = Inr (OProgram None 0, s)"
    "target_tree (OProgram None 0, s) = Some (TProgram (map (lowered False) body))"
    using pb by auto
  with tok p show ?thesis
    by (simp add: compile_on_def pb)
qed

lemma compile_returns:
  assumes L: "max_string_length eng = Some L" and A: "max_array_length eng = Some A"
  shows "\<exists>r. compile_on eng input = Some r"
proof -
  from tokenizer_returns [OF L] obtain rt where rt: "tokenizer_on eng input = Some rt" by blast
  show ?thesis
  proof (cases rt)
    case (Inl e)
    with rt show ?thesis by (simp add: compile_on_def)
  next
    case (Inr tokens)
    from parser_returns [OF A] obtain rp where rp: "parser_on eng tokens = Some rp" by blast
    show ?thesis
    proof (cases rp)
      case (Inl e)
      with rt rp Inr show ?thesis by (simp add: compile_on_def)
    next
      case p: (Inr p)
      from compile_of_parsed [of eng input tokens p] rt rp Inr p show ?thesis by simp
    qed
  qed
qed

lemma compile_literal_program:
  assumes "tokenizer input = Some (Inr [t])" "ttype t = Number \<or> ttype t = String"
  shows "compile input =
           Some (Inr (if ttype t = Number then tvalue t else [CHR 0x22] @ tvalue t @ [CHR 0x22]))"
proof -
  let ?n = "if ttype t = Number then NumberLiteral 1 (tvalue t) else StringLiteral 1 (tvalue t)"
  have w: "walk [t] None 0 1 = Some (Inr (?n, 0 + 1, 1 + 1))"
    using assms(2) walk_number [of 0 "[t]" unbounded 1] walk_string [of 0 "[t]" unbounded 1]
    by auto
  have "parser_loop [t] 0 1 [] = parser_loop [t] (0 + 1) (1 + 1) ([] @ [?n])"
    using parser_loop_step [of 0 "[t]" unbounded 1 "[]"] w by simp
  also have "\<dots> = Some (Inr ([] @ [?n]))"
    by (rule parser_loop_done) simp
  finally have p: "parser [t] = Some (Inr (Program 0 [?n]))"
    by (simp add: parser_on_def)
  have "well_formed (Program 0 [?n])" by simp
  from transformer_Program [OF this] obtain s where
    "transformer (Program 0 [?n]) = Inr (OProgram None 0, s)"
    "target_tree (OProgram None 0, s) = Some (TProgram (map (lowered False) [?n]))"
    by blast
  with assms p show ?thesis
    by (auto simp: compile_on_def)
qed

lemma tokens_of_head:
  "\<exists>t rest. tokens_of e = t # rest \<and>
     (ttype t = Number \<or> ttype t = String \<or> (ttype t = Paren \<and> tvalue t = ''(''))"
  by (cases e) simp_all

lemma walk_reads_list:
  assumes el: "\<And>e pre post fresh. e \<in> set es \<Longrightarrow>
            \<exists>n fresh'. walk (pre @ tokens_of e @ post) None (length pre) fresh =
                          Some (Inr (n, length pre + length (tokens_of e), fresh')) \<and>
                        (\<forall>c. lowered c n = target c e)"
  shows "\<exists>ns fresh'.
           walk (pre @ concat (map tokens_of es) @ \<lparr>ttype = Paren, tvalue = '')''\<rparr> # post)
             (Some (i, name, params)) (length pre) fresh =
             Some (Inr (CallExpression i name (params @ ns),
                        length pre + length (concat (map tokens_of es)) + 1, fresh')) \<and>
           map (lowered True) ns = map (target True) es"
  using el
proof (induction es arbitrary: pre params fresh)
  case Nil
  have "walk (pre @ \<lparr>ttype = Paren, tvalue = '')''\<rparr> # post) (Some (i, name, params)) (length pre) fresh =
          Some (Inr (CallExpression i name params, length pre + 1, fresh))"
    by (rule walk_close) simp_all
  then show ?case by simp
next
  case (Cons e es)
  let ?close = "\<lparr>ttype = Paren, tvalue = '')''\<rparr>"
  let ?tokens = "pre @ concat (map tokens_of (e # es)) @ ?close # post"
  from tokens_of_head [of e] obtain t rest where t: "tokens_of e = t # rest"
    and ty: "ttype t = Number \<or> ttype t = String \<or> (ttype t = Paren \<and> tvalue t = ''('')"
    by blast
  have cur: "length pre < length ?tokens" "?tokens ! length pre = t"
    using t by (simp_all add: nth_append)
  have nc: "ttype (?tokens ! length pre) \<noteq> Paren \<or> tvalue (?tokens ! length pre) \<noteq> '')''"
    using cur(2) ty by auto
  from Cons.prems [of e pre "concat (map tokens_of es) @ ?close # post" fresh]
  obtain n f1 where n: "walk ?tokens None (length pre) fresh =
        Some (Inr (n, length pre + length (tokens_of e), f1))"
    and img: "\<forall>c. lowered c n = target c e"
    by auto
  have "\<exists>ns fresh'.
           walk ((pre @ tokens_of e) @ concat (map tokens_of es) @ ?close # post)
             (Some (i, name, params @ [n])) (length (pre @ tokens_of e)) f1 =
             Some (Inr (CallExpression i name ((params @ [n]) @ ns),
                        length (pre @ tokens_of e) + length (concat (map tokens_of es)) + 1, fresh')) \<and>
           map (lowered True) ns = map (target True) es"
    by (rule Cons.IH) (rule Cons.prems, simp)
  then obtain ns fresh' where
    ns: "walk ?tokens (Some (i, name, params @ [n])) (length pre + length (tokens_of e)) f1 =
             Some (Inr (CallExpression i name (params @ n # ns),
                        length pre + length (concat (map tokens_of (e # es))) + 1, fresh'))"
    and imgs: "map (lowered True) ns = map (target True) es"
    by (auto simp: add.assoc)
  have "walk ?tokens (Some (i, name, params)) (length pre) fresh =
          Some (Inr (CallExpression i name (params @ n # ns),
                     length pre + length (concat (map tokens_of (e # es))) + 1, fresh'))"
    using walk_param [OF cur(1) nc, of unbounded i name params fresh] n ns by simp
  with img imgs show ?case
    by (intro exI [where x = "n # ns"] exI [where x = fresh']) simp
qed

lemma walk_reads:
  "\<exists>n fresh'. walk (pre @ tokens_of e @ post) None (length pre) fresh =
                 Some (Inr (n, length pre + length (tokens_of e), fresh')) \<and>
               (\<forall>c. lowered c n = target c e)"
proof (induction e arbitrary: pre post fresh)
  case (Digit g d)
  have "walk (pre @ tokens_of (Digit g d) @ post) None (length pre) fresh =
          Some (Inr (NumberLiteral fresh [d], length pre + 1, fresh + 1))"
    using walk_number [of "length pre" "pre @ tokens_of (Digit g d) @ post" unbounded fresh]
    by simp
  then show ?case by simp
next
  case (Quoted g c)
  have "walk (pre @ tokens_of (Quoted g c) @ post) None (length pre) fresh =
          Some (Inr (StringLiteral fresh c, length pre + 1, fresh + 1))"
    using walk_string [of "length pre" "pre @ tokens_of (Quoted g c) @ post" unbounded fresh]
    by simp
  then show ?case by simp
next
  case (Call g w name args w')
  let ?open = "\<lparr>ttype = Paren, tvalue = ''(''\<rparr>"
  let ?name = "\<lparr>ttype = Name, tvalue = name\<rparr>"
  let ?close = "\<lparr>ttype = Paren, tvalue = '')''\<rparr>"
  let ?tokens = "pre @ tokens_of (Call g w name args w') @ post"
  have 1: "walk ?tokens None (length pre) fresh =
             walk ?tokens (Some (fresh, name, [])) (length pre + 2) (fresh + 1)"
    using walk_open [of "length pre" ?tokens unbounded fresh]
    by (simp add: nth_append)
  have "\<exists>ns fresh'.
           walk ((pre @ [?open, ?name]) @ concat (map tokens_of args) @ ?close # post)
             (Some (fresh, name, [])) (length (pre @ [?open, ?name])) (fresh + 1) =
             Some (Inr (CallExpression fresh name ([] @ ns),
                        length (pre @ [?open, ?name]) + length (concat (map tokens_of args)) + 1,
                        fresh')) \<and>
           map (lowered True) ns = map (target True) args"
  proof (rule walk_reads_list)
    fix e pre post fresh
    assume "e \<in> set args"
    then show "\<exists>n fresh'. walk (pre @ tokens_of e @ post) None (length pre) fresh =
                          Some (Inr (n, length pre + length (tokens_of e), fresh')) \<and>
                        (\<forall>c. lowered c n = target c e)"
      by (rule Call.IH)
  qed
  then obtain ns fresh' where
    2: "walk ?tokens (Some (fresh, name, [])) (length pre + 2) (fresh + 1) =
          Some (Inr (CallExpression fresh name ns,
                     length pre + length (tokens_of (Call g w name args w')), fresh'))"
    and img: "map (lowered True) ns = map (target True) args"
    by (auto simp: add.assoc)
  from 1 2 img show ?case
    by (intro exI [where x = "CallExpression fresh name ns"] exI [where x = fresh']) simp
qed

lemma parser_loop_reads:
  "\<exists>ns. parser_loop (pre @ concat (map tokens_of es)) (length pre) fresh body =
           Some (Inr (body @ ns)) \<and>
         map (lowered False) ns = map (target False) es"
proof (induction es arbitrary: pre fresh body)
  case Nil
  have "parser_loop pre (length pre) fresh body = Some (Inr body)"
    by (rule parser_loop_done) simp
  then show ?case by simp
next
  case (Cons e es)
  let ?tokens = "pre @ concat (map tokens_of (e # es))"
  from tokens_of_head [of e] obtain t rest where t: "tokens_of e = t # rest" by blast
  then have cur: "length pre < length ?tokens" by simp
  from walk_reads [of pre e "concat (map tokens_of es)" fresh]
  obtain n f1 where n: "walk ?tokens None (length pre) fresh =
        Some (Inr (n, length pre + length (tokens_of e), f1))"
    and img: "\<forall>c. lowered c n = target c e"
    by auto
  from Cons.IH [of "pre @ tokens_of e" f1 "body @ [n]"]
  obtain ns where ns: "parser_loop ?tokens (length pre + length (tokens_of e)) f1 (body @ [n]) =
        Some (Inr (body @ n # ns))"
    and imgs: "map (lowered False) ns = map (target False) es"
    by auto
  have "parser_loop ?tokens (length pre) fresh body = Some (Inr (body @ n # ns))"
    using parser_loop_step [OF cur, of unbounded fresh body] n ns by simp
  with img imgs show ?case
    by (intro exI [where x = "n # ns"]) simp
qed

lemma parser_of_tokens:
  "\<exists>ns. parser (concat (map tokens_of items)) = Some (Inr (Program 0 ns)) \<and>
         map (lowered False) ns = map (target False) items"
  using parser_loop_reads [of "[]" items 1 "[]"] by (auto simp: parser_on_def)

lemma join_between: "join sep xs = between sep xs"
  by (induction sep xs rule: join.induct) simp_all

lemma codeGenerator_target:
  "codeGenerator (target True e) = rendering e"
  "codeGenerator (target False e) = statement e"
proof (induction e)
  case (Call g w name args w')
  have "map codeGenerator (map (target True) args) = map rendering args"
    using Call.IH(1) by simp
  then have "codeGenerator (target True (Call g w name args w')) = rendering (Call g w name args w')"
    by (simp add: join_between del: map_map)
  then show "codeGenerator (target True (Call g w name args w')) = rendering (Call g w name args w')"
    and "codeGenerator (target False (Call g w name args w')) = statement (Call g w name args w')"
    by simp_all
qed simp_all

lemma compile_of_text:
  assumes "list_all valid items" "list_all is_space w"
  shows "compile (concat (map source_text items) @ w) =
           Some (Inr (between [CHR 0x0A] (map statement items)))"
proof -
  from parser_of_tokens [of items] obtain ns where
    p: "parser (concat (map tokens_of items)) = Some (Inr (Program 0 ns))"
    and img: "map (lowered False) ns = map (target False) items"
    by blast
  from compile_of_parsed [OF tokenizer_of_text [OF assms] p]
  have "compile (concat (map source_text items) @ w) =
          Some (Inr (join [CHR 0x0A] (map codeGenerator (map (lowered False) ns))))"
    by simp
  also have "map codeGenerator (map (lowered False) ns) = map statement items"
    unfolding img by (simp add: codeGenerator_target)
  finally show ?thesis by (simp add: join_between)
qed

section \<open>Claims about the tokenizer, the parser and the pipeline\<close>

text \<open>
  Claim C1. The four stages, run one after the other on the input
  \<^verbatim>\<open>(add 2 (subtract 4 2))\<close>, return exactly the string \<^verbatim>\<open>add(2, subtract(4, 2));\<close>.
\<close>

theorem compile_add_subtract:
  "compile ''(add 2 (subtract 4 2))'' = Some (Inr ''add(2, subtract(4, 2));'')"
  by code_simp

text \<open>
  Claim C2, as the source has it. The token stream of \<^verbatim>\<open>(add 2\<close> makes the parser read
  \<^verbatim>\<open>token.type\<close> past the end of the tokens. The run ends with the engine's error for a
  property of \<^verbatim>\<open>undefined\<close>; the parser has no \<^verbatim>\<open>throw\<close> of its own. No \<^verbatim>\<open>Program\<close> is
  returned. This holds whatever the name and the number are.
\<close>

theorem parser_unclosed_call:
  "parser [\<lparr>ttype = Paren, tvalue = ''(''\<rparr>, \<lparr>ttype = Name, tvalue = name\<rparr>,
           \<lparr>ttype = Number, tvalue = v\<rparr>] = Some (Inl (UndefinedAccess ''type''))"
  by (simp add: parser_on_def parser_loop_step walk_open walk_param walk_number walk_end)

text \<open>
  Claim C2, as stated, asks for an error thrown by the parser. On the tokens of
  \<^verbatim>\<open>(add 2\<close> the failure is not one of the program's \<^verbatim>\<open>throw\<close> statements.
\<close>

theorem parser_missing_paren_not_thrown:
  "tokenizer ''(add 2'' =
     Some (Inr [\<lparr>ttype = Paren, tvalue = ''(''\<rparr>, \<lparr>ttype = Name, tvalue = ''add''\<rparr>,
                \<lparr>ttype = Number, tvalue = ''2''\<rparr>]) \<and>
   \<not> fails_with_thrown
       (parser [\<lparr>ttype = Paren, tvalue = ''(''\<rparr>, \<lparr>ttype = Name, tvalue = ''add''\<rparr>,
                \<lparr>ttype = Number, tvalue = ''2''\<rparr>])"
  by code_simp

text \<open>
  Claim C3 asks for a \<^verbatim>\<open>LexError\<close> on a string literal that is never closed. On the
  four characters \<^verbatim>\<open>"abc\<close> the tokenizer does not return at all: the string loop
  appends \<^verbatim>\<open>undefined\<close> to the value for ever. (An engine with a maximal string length
  ends this run with its own \<^verbatim>\<open>RangeError\<close>, lemma \<open>tokenizer_string_overflow\<close>; the
  \<^verbatim>\<open>SyntaxError\<close> of the tokenizer is not thrown on any engine.)
\<close>

theorem tokenizer_unterminated_string:
  "tokenizer [CHR 0x22, CHR ''a'', CHR ''b'', CHR ''c''] = None"
proof -
  let ?input = "[CHR 0x22, CHR ''a'', CHR ''b'', CHR ''c'']"
  have "string_loop ?input (0 + 1) [] (char_at ?input (0 + 1)) = None"
    by (rule string_loop_None) (auto simp: nth_Cons split: nat.splits)
  then show ?thesis
    unfolding tokenizer_on_def
    by (subst tokenizer_loop_on.simps) (simp add: is_space_def is_digit_def)
qed

text \<open>
  Claim C4. On an engine with a maximal string length and a maximal array length no
  stage runs for ever: for every input the tokenizer returns its tokens or ends with an
  error, for every list of tokens the parser returns a tree or ends with an error, and
  for every input the whole pipeline returns its output or ends with an error.
  On the inputs that the claim names the run ends with the engine's \<^verbatim>\<open>RangeError\<close>: the
  input \<^verbatim>\<open>add\<close>, which ends inside a name, and the input \<^verbatim>\<open>"abc\<close>, which ends inside a
  string, overflow the string \<^verbatim>\<open>value\<close>; the tokens of the input \<^verbatim>\<open>)\<close>, a stray closing
  paren, overflow the array \<^verbatim>\<open>ast.body\<close>. It is the limits that end these runs: without
  them they do not return (lemma \<open>without_limits\<close>).
\<close>

theorem stages_terminate:
  "max_string_length eng = Some L \<Longrightarrow> max_array_length eng = Some A \<Longrightarrow>
   (\<exists>r. tokenizer_on eng input = Some r) \<and>
   (\<exists>r. parser_on eng tokens = Some r) \<and>
   (\<exists>r. compile_on eng input = Some r) \<and>
   tokenizer_on eng ''add'' = Some (Inl (RangeError ''Invalid string length'')) \<and>
   tokenizer_on eng [CHR 0x22, CHR ''a'', CHR ''b'', CHR ''c''] =
     Some (Inl (RangeError ''Invalid string length'')) \<and>
   parser_on eng [\<lparr>ttype = Paren, tvalue = '')''\<rparr>] =
     Some (Inl (RangeError ''Invalid array length''))"
  by (intro conjI tokenizer_returns parser_returns compile_returns tokenizer_name_overflow
        tokenizer_string_overflow parser_stray_overflow)

theorem stages_terminate_witness:
  "max_string_length \<lparr>max_string_length = Some 20, max_array_length = Some 10\<rparr> = Some 20 \<and>
   max_array_length \<lparr>max_string_length = Some 20, max_array_length = Some 10\<rparr> = Some 10 \<and>
   tokenizer_on \<lparr>max_string_length = Some 20, max_array_length = Some 10\<rparr> ''(add 2'' =
     Some (Inr [\<lparr>ttype = Paren, tvalue = ''(''\<rparr>, \<lparr>ttype = Name, tvalue = ''add''\<rparr>,
                \<lparr>ttype = Number, tvalue = ''2''\<rparr>]) \<and>
   parser_on \<lparr>max_string_length = Some 20, max_array_length = Some 10\<rparr>
       [\<lparr>ttype = Paren, tvalue = ''(''\<rparr>, \<lparr>ttype = Name, tvalue = ''add''\<rparr>,
        \<lparr>ttype = Number, tvalue = ''2''\<rparr>] = Some (Inl (UndefinedAccess ''type'')) \<and>
   compile_on \<lparr>max_string_length = Some 20, max_array_length = Some 10\<rparr> ''(add 2'' =
     Some (Inl (UndefinedAccess ''type'')) \<and>
   tokenizer_on \<lparr>max_string_length = Some 20, max_array_length = Some 10\<rparr> ''add'' =
     Some (Inl (RangeError ''Invalid string length'')) \<and>
   tokenizer_on \<lparr>max_string_length = Some 20, max_array_length = Some 10\<rparr>
       [CHR 0x22, CHR ''a'', CHR ''b'', CHR ''c''] =
     Some (Inl (RangeError ''Invalid string length'')) \<and>
   parser_on \<lparr>max_string_length = Some 20, max_array_length = Some 10\<rparr>
       [\<lparr>ttype = Paren, tvalue = '')''\<rparr>] =
     Some (Inl (RangeError ''Invalid array length''))"
proof -
  let ?eng = "\<lparr>max_string_length = Some 20, max_array_length = Some 10\<rparr>"
  let ?tokens = "[\<lparr>ttype = Paren, tvalue = ''(''\<rparr>, \<lparr>ttype = Name, tvalue = ''add''\<rparr>,
                \<lparr>ttype = Number, tvalue = ''2''\<rparr>]"
  have h: "max_string_length ?eng = Some 20" "max_array_length ?eng = Some 10" by simp_all
  have t: "tokenizer_on ?eng ''(add 2'' = Some (Inr ?tokens)" by code_simp
  have p: "parser_on ?eng ?tokens = Some (Inl (UndefinedAccess ''type''))" by code_simp
  have c: "compile_on ?eng ''(add 2'' = Some (Inl (UndefinedAccess ''type''))" by code_simp
  from stages_terminate [OF h, of "''(add 2''" ?tokens] h t p c show ?thesis by simp
qed

text \<open>
  Claim C5. The tokenizer never emits a \<^verbatim>\<open>number\<close> token longer than one character:
  every \<^verbatim>\<open>number\<close> token of every result is one digit; the input \<^verbatim>\<open>42\<close> gives the two
  tokens \<^verbatim>\<open>4\<close> and \<^verbatim>\<open>2\<close>; and when the main loop stands on a run of \<open>n\<close> digits it
  appends \<open>n\<close> one-digit \<^verbatim>\<open>number\<close> tokens, in the order of the input, and goes on behind
  the run.
\<close>

theorem tokenizer_single_digit_numbers:
  "(tokenizer input = Some (Inr tokens) \<longrightarrow> list_all one_digit tokens) \<and>
   tokenizer ''42'' =
     Some (Inr [\<lparr>ttype = Number, tvalue = ''4''\<rparr>, \<lparr>ttype = Number, tvalue = ''2''\<rparr>]) \<and>
   (current + n \<le> length input \<and> (\<forall>i<n. is_digit (input ! (current + i))) \<longrightarrow>
    tokenizer_loop input current acc =
      tokenizer_loop input (current + n)
        (acc @ map (\<lambda>i. \<lparr>ttype = Number, tvalue = [input ! (current + i)]\<rparr>) [0..<n]))"
proof (intro conjI impI)
  assume "tokenizer input = Some (Inr tokens)"
  then show "list_all one_digit tokens"
    using tokenizer_loop_numbers [of unbounded input 0 "[]" "Inr tokens"]
    by (simp add: tokenizer_on_def)
next
  show "tokenizer ''42'' =
     Some (Inr [\<lparr>ttype = Number, tvalue = ''4''\<rparr>, \<lparr>ttype = Number, tvalue = ''2''\<rparr>])"
    by code_simp
next
  assume "current + n \<le> length input \<and> (\<forall>i<n. is_digit (input ! (current + i)))"
  then show "tokenizer_loop input current acc =
      tokenizer_loop input (current + n)
        (acc @ map (\<lambda>i. \<lparr>ttype = Number, tvalue = [input ! (current + i)]\<rparr>) [0..<n])"
    by (intro tokenizer_loop_digits) auto
qed

theorem tokenizer_single_digit_numbers_witness:
  "tokenizer ''(f 42)'' =
     Some (Inr [\<lparr>ttype = Paren, tvalue = ''(''\<rparr>, \<lparr>ttype = Name, tvalue = ''f''\<rparr>,
                \<lparr>ttype = Number, tvalue = ''4''\<rparr>, \<lparr>ttype = Number, tvalue = ''2''\<rparr>,
                \<lparr>ttype = Paren, tvalue = '')''\<rparr>]) \<and>
   list_all one_digit
     [\<lparr>ttype = Paren, tvalue = ''(''\<rparr>, \<lparr>ttype = Name, tvalue = ''f''\<rparr>,
      \<lparr>ttype = Number, tvalue = ''4''\<rparr>, \<lparr>ttype = Number, tvalue = ''2''\<rparr>,
      \<lparr>ttype = Paren, tvalue = '')''\<rparr>] \<and>
   3 + 2 \<le> length ''(f 42)'' \<and> is_digit (''(f 42)'' ! 3) \<and> is_digit (''(f 42)'' ! 4) \<and>
   tokenizer_loop ''(f 42)'' 3 [] =
     tokenizer_loop ''(f 42)'' (3 + 2)
       [\<lparr>ttype = Number, tvalue = ''4''\<rparr>, \<lparr>ttype = Number, tvalue = ''2''\<rparr>]"
proof -
  let ?toks = "[\<lparr>ttype = Paren, tvalue = ''(''\<rparr>, \<lparr>ttype = Name, tvalue = ''f''\<rparr>,
                \<lparr>ttype = Number, tvalue = ''4''\<rparr>, \<lparr>ttype = Number, tvalue = ''2''\<rparr>,
                \<lparr>ttype = Paren, tvalue = '')''\<rparr>]"
  note T = tokenizer_single_digit_numbers [of "''(f 42)''" ?toks 3 2 "[]"]
  have t: "tokenizer ''(f 42)'' = Some (Inr ?toks)"
    by code_simp
  have d: "3 + 2 \<le> length ''(f 42)'' \<and> (\<forall>i<2. is_digit (''(f 42)'' ! (3 + i)))"
    by (auto simp: is_digit_def nth_Cons less_Suc_eq numeral_2_eq_2 numeral_3_eq_3)
  from T t have a: "list_all one_digit ?toks" by blast
  from T d have "tokenizer_loop ''(f 42)'' 3 [] =
      tokenizer_loop ''(f 42)'' (3 + 2)
        ([] @ map (\<lambda>i. \<lparr>ttype = Number, tvalue = [''(f 42)'' ! (3 + i)]\<rparr>) [0..<2])"
    by blast
  also have "map (\<lambda>i. \<lparr>ttype = Number, tvalue = [''(f 42)'' ! (3 + i)]\<rparr>) [0..<2] =
      [\<lparr>ttype = Number, tvalue = ''4''\<rparr>, \<lparr>ttype = Number, tvalue = ''2''\<rparr>]"
    by (simp add: numeral_2_eq_2 numeral_3_eq_3)
  finally show ?thesis using t a d by (simp add: numeral_2_eq_2 less_Suc_eq)
qed

text \<open>
  Claim C6, as the source has it. When the main loop meets a character that is not a
  paren, white space, a digit, a double quote or a letter, the tokenizer fails with a
  \<^verbatim>\<open>SyntaxError\<close> whose message ends with that character. The message is the only
  content of the error, and it does not depend on the position \<open>current\<close>.
\<close>

theorem tokenizer_unknown_character:
  "current < length input \<Longrightarrow> unknown_char (input ! current) \<Longrightarrow>
   tokenizer_loop input current tokens =
     Some (Inl (SyntaxError (''I dont know what this character is: '' @ [input ! current])))"
  by (rule tokenizer_loop_unknown)

theorem tokenizer_unknown_character_witness:
  "7 < length ''(add 2 #)'' \<and> unknown_char (''(add 2 #)'' ! 7) \<and>
   tokenizer_loop ''(add 2 #)'' 7 [] =
     Some (Inl (SyntaxError ''I dont know what this character is: #''))"
proof -
  have h: "7 < length ''(add 2 #)''" "unknown_char (''(add 2 #)'' ! 7)"
    by (simp_all add: unknown_char_def is_space_def is_digit_def is_letter_def)
  from tokenizer_unknown_character [OF h, of "[]"] h show ?thesis by simp
qed

text \<open>
  Claim C6, as stated, asks that the error identifies the position too. The inputs
  \<^verbatim>\<open>#\<close> and \<^verbatim>\<open> #\<close> have the offending character at positions 0 and 1, and fail with
  the same error.
\<close>

theorem tokenizer_error_without_position:
  "tokenizer ''#'' = Some (Inl (SyntaxError ''I dont know what this character is: #'')) \<and>
   tokenizer '' #'' = Some (Inl (SyntaxError ''I dont know what this character is: #''))"
  by code_simp

section \<open>Claims about the traverser, the transformer and the generated text\<close>

text \<open>
  Claim C7. For every well-formed source \<^verbatim>\<open>Program\<close> the transformer returns the
  reference to a target \<^verbatim>\<open>Program\<close> whose tree is the structural image of the source
  tree. No object of the target tree carries a \<^verbatim>\<open>_context\<close>: the \<^verbatim>\<open>Program\<close> object that
  is returned has none, and no object in an array of the final store has one, nor has an
  object inside such an object. Every public field of every node of the source tree
  reads after the run as the parser set it: \<^verbatim>\<open>type\<close>, \<^verbatim>\<open>name\<close> and \<^verbatim>\<open>value\<close> are the same
  texts, \<^verbatim>\<open>params\<close> and \<^verbatim>\<open>body\<close> the same arrays of the same nodes. The fields that were
  assigned to during the run are the \<^verbatim>\<open>_context\<close> fields of the source \<^verbatim>\<open>Program\<close>
  object and of the source \<^verbatim>\<open>CallExpression\<close> objects, and no other field of any object.
  Every tree the parser returns is well formed.
\<close>

theorem transformer_frame:
  "(parser tokens = Some (Inr p) \<longrightarrow> well_formed p) \<and>
   (well_formed (Program i body) \<longrightarrow>
      (\<exists>s. transformer (Program i body) = Inr (OProgram None 0, s) \<and>
           target_tree (OProgram None 0, s) = Some (lowered False (Program i body)) \<and>
           list_all (list_all (\<lambda>x. \<not> carries_context x)) (arrays s) \<and>
           (\<forall>n\<in>set (nodes_of (Program i body)). \<forall>f\<in>set public_fields.
              field_after s n f = field n f) \<and>
           (\<forall>j f. properties s j f \<noteq> None \<longleftrightarrow>
              f = ''_context'' \<and> j \<in> set (i # concat (map call_oids body)))))"
proof (intro conjI impI)
  assume "parser tokens = Some (Inr p)"
  then show "well_formed p" using parser_result by blast
next
  assume "well_formed (Program i body)"
  from transformer_Program [OF this] obtain s where
    tr: "transformer (Program i body) = Inr (OProgram None 0, s)"
    and tt: "target_tree (OProgram None 0, s) = Some (TProgram (map (lowered False) body))"
    and dm: "dom (contexts s) = set (i # concat (map call_oids body))"
    and fr: "frame \<lparr>properties = (\<lambda>i. Map.empty), arrays = [[]]\<rparr> s"
    by blast
  from fr have other: "properties s j f = None" if "f \<noteq> ''_context''" for j f
    using that by (simp add: frame_def)
  from fr have cl: "list_all (list_all (\<lambda>x. \<not> carries_context x)) (arrays s)"
    by (simp add: frame_def clean_def)
  have fa: "field_after s n f = field n f" if "f \<in> set public_fields" for n f
  proof -
    from that have "f \<noteq> ''_context''" by (auto simp: public_fields_def)
    from other [OF this] show ?thesis
      by (cases n) (simp_all add: field_after_def)
  qed
  have pr: "properties s j f \<noteq> None \<longleftrightarrow>
              f = ''_context'' \<and> j \<in> set (i # concat (map call_oids body))" for j f
  proof (cases "f = ''_context''")
    case True
    have "properties s j ''_context'' \<noteq> None \<longleftrightarrow> j \<in> dom (contexts s)"
      by (auto simp: contexts_def dom_def)
    with True dm show ?thesis by simp
  next
    case False
    with other [OF False] show ?thesis by simp
  qed
  from tr tt cl fa pr
  show "\<exists>s. transformer (Program i body) = Inr (OProgram None 0, s) \<and>
           target_tree (OProgram None 0, s) = Some (lowered False (Program i body)) \<and>
           list_all (list_all (\<lambda>x. \<not> carries_context x)) (arrays s) \<and>
           (\<forall>n\<in>set (nodes_of (Program i body)). \<forall>f\<in>set public_fields.
              field_after s n f = field n f) \<and>
           (\<forall>j f. properties s j f \<noteq> None \<longleftrightarrow>
              f = ''_context'' \<and> j \<in> set (i # concat (map call_oids body)))"
    by (intro exI [where x = s]) simp
qed

theorem transformer_frame_witness:
  "parser [\<lparr>ttype = Paren, tvalue = ''(''\<rparr>, \<lparr>ttype = Name, tvalue = ''add''\<rparr>,
           \<lparr>ttype = Number, tvalue = ''2''\<rparr>, \<lparr>ttype = Paren, tvalue = ''(''\<rparr>,
           \<lparr>ttype = Name, tvalue = ''subtract''\<rparr>, \<lparr>ttype = Number, tvalue = ''4''\<rparr>,
           \<lparr>ttype = Number, tvalue = ''2''\<rparr>, \<lparr>ttype = Paren, tvalue = '')''\<rparr>,
           \<lparr>ttype = Paren, tvalue = '')''\<rparr>] =
     Some (Inr (Program 0
       [CallExpression 1 ''add''
          [NumberLiteral 2 ''2'',
           CallExpression 3 ''subtract'' [NumberLiteral 4 ''4'', NumberLiteral 5 ''2'']]])) \<and>
   well_formed (Program 0
       [CallExpression 1 ''add''
          [NumberLiteral 2 ''2'',
           CallExpression 3 ''subtract'' [NumberLiteral 4 ''4'', NumberLiteral 5 ''2'']]]) \<and>
   (\<exists>s. transformer (Program 0
       [CallExpression 1 ''add''
          [NumberLiteral 2 ''2'',
           CallExpression 3 ''subtract'' [NumberLiteral 4 ''4'', NumberLiteral 5 ''2'']]]) =
          Inr (OProgram None 0, s) \<and>
        target_tree (OProgram None 0, s) =
          Some (TProgram
            [TExpressionStatement
               (TCallExpression (TIdentifier ''add'')
                  [TNumberLiteral ''2'',
                   TCallExpression (TIdentifier ''subtract'')
                     [TNumberLiteral ''4'', TNumberLiteral ''2'']])]) \<and>
        list_all (list_all (\<lambda>x. \<not> carries_context x)) (arrays s) \<and>
        field_after s (CallExpression 3 ''subtract'' [NumberLiteral 4 ''4'', NumberLiteral 5 ''2''])
          ''name'' = Some (Text ''subtract'') \<and>
        field_after s (CallExpression 3 ''subtract'' [NumberLiteral 4 ''4'', NumberLiteral 5 ''2''])
          ''params'' = Some (Nodes [NumberLiteral 4 ''4'', NumberLiteral 5 ''2'']) \<and>
        field_after s (NumberLiteral 2 ''2'') ''value'' = Some (Text ''2'') \<and>
        properties s 3 ''_context'' \<noteq> None \<and>
        properties s 3 ''name'' = None \<and>
        properties s 2 ''_context'' = None)"
proof -
  let ?tokens = "[\<lparr>ttype = Paren, tvalue = ''(''\<rparr>, \<lparr>ttype = Name, tvalue = ''add''\<rparr>,
           \<lparr>ttype = Number, tvalue = ''2''\<rparr>, \<lparr>ttype = Paren, tvalue = ''(''\<rparr>,
           \<lparr>ttype = Name, tvalue = ''subtract''\<rparr>, \<lparr>ttype = Number, tvalue = ''4''\<rparr>,
           \<lparr>ttype = Number, tvalue = ''2''\<rparr>, \<lparr>ttype = Paren, tvalue = '')''\<rparr>,
           \<lparr>ttype = Paren, tvalue = '')''\<rparr>]"
  let ?sub = "CallExpression 3 ''subtract'' [NumberLiteral 4 ''4'', NumberLiteral 5 ''2'']"
  let ?body = "[CallExpression 1 ''add'' [NumberLiteral 2 ''2'', ?sub]]"
  note T = transformer_frame [of ?tokens "Program 0 ?body" 0 ?body]
  have p: "parser ?tokens = Some (Inr (Program 0 ?body))"
    by code_simp
  from T p have wf: "well_formed (Program 0 ?body)" by blast
  from T wf obtain s where
    1: "transformer (Program 0 ?body) = Inr (OProgram None 0, s)"
    and 2: "target_tree (OProgram None 0, s) = Some (lowered False (Program 0 ?body))"
    and 3: "list_all (list_all (\<lambda>x. \<not> carries_context x)) (arrays s)"
    and 4: "\<forall>n\<in>set (nodes_of (Program 0 ?body)). \<forall>f\<in>set public_fields.
              field_after s n f = field n f"
    and 5: "\<forall>j f. properties s j f \<noteq> None \<longleftrightarrow>
              f = ''_context'' \<and> j \<in> set (0 # concat (map call_oids ?body))"
    by blast
  from 4 have a: "field_after s ?sub ''name'' = Some (Text ''subtract'')"
    "field_after s ?sub ''params'' = Some (Nodes [NumberLiteral 4 ''4'', NumberLiteral 5 ''2''])"
    "field_after s (NumberLiteral 2 ''2'') ''value'' = Some (Text ''2'')"
    by (simp_all add: public_fields_def)
  have b: "properties s 3 ''_context'' \<noteq> None" "properties s 3 ''name'' = None"
    "properties s 2 ''_context'' = None"
    using 5 [THEN spec, THEN spec, of 3 "''_context''"] 5 [THEN spec, THEN spec, of 3 "''name''"]
      5 [THEN spec, THEN spec, of 2 "''_context''"]
    by simp_all
  from 2 have c: "target_tree (OProgram None 0, s) =
          Some (TProgram
            [TExpressionStatement
               (TCallExpression (TIdentifier ''add'')
                  [TNumberLiteral ''2'',
                   TCallExpression (TIdentifier ''subtract'')
                     [TNumberLiteral ''4'', TNumberLiteral ''2'']])])"
    by simp
  from p wf 1 c 3 a b show ?thesis by blast
qed

text \<open>
  Claim C8. For every tree built from the four source node types, every visitor and every
  state, the traverser does what the events of the depth-first order do, one after the
  other: for each node the \<^verbatim>\<open>enter\<close> callback registered for its type, if there is one,
  called as \<^verbatim>\<open>(node, parent)\<close> before any child is visited; the children from left to
  right; the \<^verbatim>\<open>exit\<close> callback registered for its type, if there is one, after the last
  child; nothing below a literal. A visitor is any choice of methods that act on a state
  or throw; a method that throws ends the traversal, and the calls made up to there are
  the beginning of the same order. For a recording visitor, whichever methods it
  registers for whichever types, the record is the depth-first order of the tree
  restricted to the events for which a callback is registered: every registered
  callback is called, in this order, and nothing else is.
\<close>

theorem traverser_depth_first:
  "defined ast \<Longrightarrow>
   traverser ast visitor s = run_events visitor (depth_first ast None) s \<and>
   traverser ast (recorder_for ens exs) [] = Inr (filter (heard ens exs) (depth_first ast None))"
proof
  assume d: "defined ast"
  show "traverser ast visitor s = run_events visitor (depth_first ast None) s"
    unfolding traverser_def using d by (rule traverseNode_events)
  have "traverser ast (recorder_for ens exs) [] =
          run_events (recorder_for ens exs) (depth_first ast None) []"
    unfolding traverser_def using d by (rule traverseNode_events)
  then show "traverser ast (recorder_for ens exs) [] =
               Inr (filter (heard ens exs) (depth_first ast None))"
    by (simp add: run_events_recorder)
qed

theorem traverser_depth_first_witness:
  "defined (Program 0 [CallExpression 1 ''add'' [NumberLiteral 2 ''2'', StringLiteral 3 ''x'']]) \<and>
   traverser (Program 0 [CallExpression 1 ''add'' [NumberLiteral 2 ''2'', StringLiteral 3 ''x'']])
     (recorder_for [''Program'', ''CallExpression'', ''NumberLiteral''] [''StringLiteral'']) [] =
     Inr [Enter (Program 0 [CallExpression 1 ''add'' [NumberLiteral 2 ''2'', StringLiteral 3 ''x'']])
            None,
          Enter (CallExpression 1 ''add'' [NumberLiteral 2 ''2'', StringLiteral 3 ''x''])
            (Some (Program 0
               [CallExpression 1 ''add'' [NumberLiteral 2 ''2'', StringLiteral 3 ''x'']])),
          Enter (NumberLiteral 2 ''2'')
            (Some (CallExpression 1 ''add'' [NumberLiteral 2 ''2'', StringLiteral 3 ''x''])),
          Exit (StringLiteral 3 ''x'')
            (Some (CallExpression 1 ''add'' [NumberLiteral 2 ''2'', StringLiteral 3 ''x'']))] \<and>
   traverser (Program 0 [CallExpression 1 ''add'' [NumberLiteral 2 ''2'', StringLiteral 3 ''x'']])
     (recorder_for [] [''CallExpression'', ''Program'']) [] =
     Inr [Exit (CallExpression 1 ''add'' [NumberLiteral 2 ''2'', StringLiteral 3 ''x''])
            (Some (Program 0
               [CallExpression 1 ''add'' [NumberLiteral 2 ''2'', StringLiteral 3 ''x'']])),
          Exit (Program 0 [CallExpression 1 ''add'' [NumberLiteral 2 ''2'', StringLiteral 3 ''x'']])
            None]"
proof -
  let ?ast = "Program 0 [CallExpression 1 ''add'' [NumberLiteral 2 ''2'', StringLiteral 3 ''x'']]"
  have d: "defined ?ast" by simp
  from traverser_depth_first [OF d, of _ _ "[''Program'', ''CallExpression'', ''NumberLiteral'']"
         "[''StringLiteral'']"]
  have 1: "traverser ?ast (recorder_for [''Program'', ''CallExpression'', ''NumberLiteral'']
             [''StringLiteral'']) [] =
           Inr (filter (heard [''Program'', ''CallExpression'', ''NumberLiteral''] [''StringLiteral''])
                  (depth_first ?ast None))"
    by (rule conjunct2)
  from traverser_depth_first [OF d, of _ _ "[]" "[''CallExpression'', ''Program'']"]
  have 2: "traverser ?ast (recorder_for [] [''CallExpression'', ''Program'']) [] =
           Inr (filter (heard [] [''CallExpression'', ''Program'']) (depth_first ?ast None))"
    by (rule conjunct2)
  from d 1 2 show ?thesis by simp
qed

text \<open>
  Claim C9. Every well-formed input compiles, and to the text that the specification
  gives for it: for every sequence of valid expressions, with any white space in front
  of them, inside their calls and after the last, the pipeline returns the statements of
  the expressions, separated by line feeds. The digit of each number literal and the
  content of each string literal stand in the output as the same characters as in the
  input (\<open>source_text\<close> and \<open>rendering\<close> have the same \<open>d\<close> and the same \<open>c\<close>):
  no literal is read again, reformatted or escaped. A number literal is what the
  tokenizer makes one, a single digit; a run of digits is a run of one-digit literals.
\<close>

theorem literal_round_trip:
  "list_all valid items \<Longrightarrow> list_all is_space w \<Longrightarrow>
   compile (concat (map source_text items) @ w) =
     Some (Inr (between [CHR 0x0A] (map statement items)))"
  by (rule compile_of_text)

theorem literal_round_trip_witness:
  "list_all valid
     [Call [] [] ''f'' [Digit '' '' CHR ''7'', Quoted '' '' ''a b''] [],
      Digit [CHR 0x0A] CHR ''4'', Digit [] CHR ''2''] \<and>
   list_all is_space '' '' \<and>
   compile [CHR ''('', CHR ''f'', CHR '' '', CHR ''7'', CHR '' '', CHR 0x22, CHR ''a'', CHR '' '',
            CHR ''b'', CHR 0x22, CHR '')'', CHR 0x0A, CHR ''4'', CHR ''2'', CHR '' ''] =
     Some (Inr [CHR ''f'', CHR ''('', CHR ''7'', CHR '','', CHR '' '', CHR 0x22, CHR ''a'',
                CHR '' '', CHR ''b'', CHR 0x22, CHR '')'', CHR '';'', CHR 0x0A, CHR ''4'',
                CHR 0x0A, CHR ''2''])"
proof -
  let ?items = "[Call [] [] ''f'' [Digit '' '' CHR ''7'', Quoted '' '' ''a b''] [],
      Digit [CHR 0x0A] CHR ''4'', Digit [] CHR ''2'']"
  have v: "list_all valid ?items" "list_all is_space '' ''"
    by (simp_all add: is_space_def is_digit_def is_letter_def)
  from literal_round_trip [OF v] v show ?thesis by simp
qed

text \<open>
  Claim C10. A literal at top level goes into the body of the target \<^verbatim>\<open>Program\<close> as it
  is, and only a call is wrapped in an \<^verbatim>\<open>ExpressionStatement\<close>: the input of one digit
  compiles to that digit, the input of one string literal compiles to the literal
  between its quotes, both without a semicolon; and in the target body of any
  well-formed \<^verbatim>\<open>Program\<close> there stands, for each node of the source body, the literal
  itself or the statement of the call.
\<close>

theorem top_level_literal_unwrapped:
  "(is_digit d \<longrightarrow> compile [d] = Some (Inr [d])) \<and>
   (CHR 0x22 \<notin> set v \<longrightarrow>
      compile ([CHR 0x22] @ v @ [CHR 0x22]) = Some (Inr ([CHR 0x22] @ v @ [CHR 0x22]))) \<and>
   (well_formed (Program i body) \<longrightarrow>
      (\<exists>s tbody. transformer (Program i body) = Inr (OProgram None 0, s) \<and>
                 target_tree (OProgram None 0, s) = Some (TProgram tbody) \<and>
                 list_all2 top_level body tbody))"
proof (intro conjI impI)
  assume d: "is_digit d"
  have "tokenizer_loop [d] 0 [] =
          tokenizer_loop [d] (0 + 1) ([] @ [\<lparr>ttype = Number, tvalue = [[d] ! 0]\<rparr>])"
    using d by (intro tokenizer_loop_digit) simp_all
  then have "tokenizer [d] = Some (Inr [\<lparr>ttype = Number, tvalue = [d]\<rparr>])"
    by (simp add: tokenizer_on_def tokenizer_loop_done)
  from compile_literal_program [OF this] show "compile [d] = Some (Inr [d])" by simp
next
  assume "CHR 0x22 \<notin> set v"
  from compile_literal_program [OF tokenizer_quoted [OF this]]
  show "compile ([CHR 0x22] @ v @ [CHR 0x22]) = Some (Inr ([CHR 0x22] @ v @ [CHR 0x22]))"
    by simp
next
  assume wf: "well_formed (Program i body)"
  from transformer_Program [OF wf] obtain s where
    s: "transformer (Program i body) = Inr (OProgram None 0, s)"
       "target_tree (OProgram None 0, s) = Some (TProgram (map (lowered False) body))"
    by blast
  have "top_level n (lowered False n)" if "expr n" for n
    using that by (cases n) simp_all
  with wf have "list_all2 top_level body (map (lowered False) body)"
    by (simp add: list_all2_conv_all_nth list_all_length)
  with s show "\<exists>s tbody. transformer (Program i body) = Inr (OProgram None 0, s) \<and>
                 target_tree (OProgram None 0, s) = Some (TProgram tbody) \<and>
                 list_all2 top_level body tbody"
    by blast
qed

theorem top_level_literal_unwrapped_witness:
  "is_digit CHR ''2'' \<and> compile ''2'' = Some (Inr ''2'') \<and>
   CHR 0x22 \<notin> set ''hi'' \<and>
   compile [CHR 0x22, CHR ''h'', CHR ''i'', CHR 0x22] =
     Some (Inr [CHR 0x22, CHR ''h'', CHR ''i'', CHR 0x22]) \<and>
   well_formed (Program 0 [NumberLiteral 1 ''2'', CallExpression 2 ''f'' []]) \<and>
   (\<exists>s tbody. transformer (Program 0 [NumberLiteral 1 ''2'', CallExpression 2 ''f'' []]) =
                Inr (OProgram None 0, s) \<and>
              target_tree (OProgram None 0, s) = Some (TProgram tbody) \<and>
              list_all2 top_level [NumberLiteral 1 ''2'', CallExpression 2 ''f'' []] tbody)"
proof -
  note T = top_level_literal_unwrapped
             [of "CHR ''2''" "''hi''" 0 "[NumberLiteral 1 ''2'', CallExpression 2 ''f'' []]"]
  have d: "is_digit CHR ''2''" by (simp add: is_digit_def)
  have q: "CHR 0x22 \<notin> set ''hi''" by simp
  have wf: "well_formed (Program 0 [NumberLiteral 1 ''2'', CallExpression 2 ''f'' []])" by simp
  from T d have 1: "compile ''2'' = Some (Inr ''2'')" by blast
  from T q have 2: "compile [CHR 0x22, CHR ''h'', CHR ''i'', CHR 0x22] =
     Some (Inr [CHR 0x22, CHR ''h'', CHR ''i'', CHR 0x22])" by simp
  from T wf have 3: "\<exists>s tbody. transformer (Program 0 [NumberLiteral 1 ''2'', CallExpression 2 ''f'' []]) =
                Inr (OProgram None 0, s) \<and>
              target_tree (OProgram None 0, s) = Some (TProgram tbody) \<and>
              list_all2 top_level [NumberLiteral 1 ''2'', CallExpression 2 ''f'' []] tbody"
    by blast
  from d q wf 1 2 3 show ?thesis by blast
qed

end
